theory Spec2Isabelle
  imports
    Complex_Main
    "HOL-Library.Multiset"
    "HOL-Library.Char_ord"
    "HOL-Library.List_Lexorder"
    "HOL-Library.Product_Lexorder"
begin

section \<open>Async Doctor: static analyzer, tracer and correlator\<close>

text \<open>
  A shallow embedding of the TypeScript sources. JavaScript strings are modelled as
  \<^typ>\<open>string\<close> (one \<^typ>\<open>char\<close> per code unit, compared code unit by code unit as
  the \<open><\<close> of JavaScript does), numbers that hold line numbers, columns and ids as
  \<^typ>\<open>int\<close> or \<^typ>\<open>nat\<close>, timestamps as \<^typ>\<open>real\<close>. A thrown exception is the
  \<open>Inl\<close> of a sum type.
\<close>

datatype js_error = Thrown string

subsection \<open>Array.prototype.sort with a comparator\<close>

text \<open>
  \<open>Array.prototype.sort\<close> is a stable sort: the comparator's sign decides the order and
  elements that compare as equal keep their relative order. The stable insertion sort
  below computes that result: an element is placed before the first element that it does
  not have to follow.
\<close>

fun js_insert :: "('a \<Rightarrow> 'a \<Rightarrow> 'n::linordered_idom) \<Rightarrow> 'a \<Rightarrow> 'a list \<Rightarrow> 'a list" where
  "js_insert cmp x [] = [x]"
| "js_insert cmp x (y # ys) = (if cmp x y \<le> 0 then x # y # ys else y # js_insert cmp x ys)"

fun js_sort :: "('a \<Rightarrow> 'a \<Rightarrow> 'n::linordered_idom) \<Rightarrow> 'a list \<Rightarrow> 'a list" where
  "js_sort cmp [] = []"
| "js_sort cmp (x # xs) = js_insert cmp x (js_sort cmp xs)"

subsection \<open>The static analyzer: runAnalysis (cli/src/index.ts)\<close>

text \<open>A message of \<open>Linter.verify\<close>: the fields that \<open>runAnalysis\<close> reads.\<close>

record lint_fix =
  fix_range :: "nat \<times> nat"
  fix_text :: string

record lint_message =
  m_line :: int
  m_column :: int
  m_ruleId :: "string option"
  m_message :: string
  m_fix :: "lint_fix option"

record finding =
  id_F :: nat
  file_F :: string
  line_F :: int
  column_F :: int
  pattern_F :: string
  message_F :: string
  fixable_F :: bool

text \<open>The object pushed for one message: \<open>id\<close> is 0 until the sort, \<open>pattern\<close> is
  \<open>m.ruleId || ''\<close>, \<open>fixable\<close> is \<open>Boolean(m.fix)\<close>.\<close>

definition push_message :: "string \<Rightarrow> lint_message \<Rightarrow> finding" where
  "push_message filePath m =
     \<lparr> id_F = 0, file_F = filePath, line_F = m_line m, column_F = m_column m,
       pattern_F = (case m_ruleId m of None \<Rightarrow> [] | Some r \<Rightarrow> r),
       message_F = m_message m, fixable_F = (m_fix m \<noteq> None) \<rparr>"

text \<open>
  \<open>files.forEach\<close>: each file is read and linted, its messages are appended to
  \<open>results\<close>. Neither \<open>fs.readFileSync\<close> nor \<open>linter.verify\<close> is called under a
  \<open>try\<close>, so an exception of either one leaves the loop and \<open>runAnalysis\<close>.
  \<open>linter.verify\<close> is the ESLint library: it runs the registered rules over the parsed
  file and returns the messages, or raises what a rule listener raised.
\<close>

fun collect_results ::
  "(string \<Rightarrow> js_error + string) \<Rightarrow> (string \<Rightarrow> string \<Rightarrow> js_error + lint_message list) \<Rightarrow>
   string list \<Rightarrow> finding list \<Rightarrow> js_error + finding list" where
  "collect_results readFileSync verify [] results = Inr results"
| "collect_results readFileSync verify (filePath # files) results =
     (case readFileSync filePath of
        Inl e \<Rightarrow> Inl e
      | Inr code \<Rightarrow>
         (case verify code filePath of
            Inl e \<Rightarrow> Inl e
          | Inr messages \<Rightarrow>
              collect_results readFileSync verify files
                (results @ map (push_message filePath) messages)))"

text \<open>The comparator of \<open>results.sort\<close>.\<close>

definition compareFn :: "finding \<Rightarrow> finding \<Rightarrow> int" where
  "compareFn a b =
     (if file_F a < file_F b then - 1
      else if file_F a > file_F b then 1
      else if line_F a < line_F b then - 1
      else if line_F a > line_F b then 1
      else column_F a - column_F b)"

text \<open>\<open>results.forEach((res, idx) => { res.id = idx + 1; })\<close>\<close>

fun assign_ids :: "nat \<Rightarrow> finding list \<Rightarrow> finding list" where
  "assign_ids idx [] = []"
| "assign_ids idx (res # rest) = res\<lparr>id_F := idx + 1\<rparr> # assign_ids (Suc idx) rest"

text \<open>\<open>runAnalysis\<close>, from the list \<open>files\<close> that the directory walk has gathered.\<close>

definition runAnalysis ::
  "(string \<Rightarrow> js_error + string) \<Rightarrow> (string \<Rightarrow> string \<Rightarrow> js_error + lint_message list) \<Rightarrow>
   string list \<Rightarrow> js_error + finding list" where
  "runAnalysis readFileSync verify files =
     (case collect_results readFileSync verify files [] of
        Inl e \<Rightarrow> Inl e
      | Inr results \<Rightarrow> Inr (assign_ids 0 (js_sort compareFn results)))"

text \<open>The order that the claim names: file, then line, then column, each ascending.\<close>

definition position_le :: "finding \<Rightarrow> finding \<Rightarrow> bool" where
  "position_le a b \<longleftrightarrow>
     file_F a < file_F b \<or>
     (file_F a = file_F b \<and>
       (line_F a < line_F b \<or> (line_F a = line_F b \<and> column_F a \<le> column_F b)))"

text \<open>The sort key that \<open>compareFn\<close> compares.\<close>

definition pos_key :: "finding \<Rightarrow> string \<times> int \<times> int" where
  "pos_key f = (file_F f, line_F f, column_F f)"

text \<open>One iteration of \<open>files.forEach\<close>: read the file, lint it.\<close>

definition lint_file ::
  "(string \<Rightarrow> js_error + string) \<Rightarrow> (string \<Rightarrow> string \<Rightarrow> js_error + lint_message list) \<Rightarrow>
   string \<Rightarrow> js_error + lint_message list" where
  "lint_file readFileSync verify filePath =
     (case readFileSync filePath of Inl e \<Rightarrow> Inl e | Inr code \<Rightarrow> verify code filePath)"

text \<open>The findings that one file contributes (none when the file raises).\<close>

definition file_findings ::
  "(string \<Rightarrow> js_error + string) \<Rightarrow> (string \<Rightarrow> string \<Rightarrow> js_error + lint_message list) \<Rightarrow>
   string \<Rightarrow> finding list" where
  "file_findings readFileSync verify filePath =
     (case lint_file readFileSync verify filePath of
        Inl e \<Rightarrow> []
      | Inr messages \<Rightarrow> map (push_message filePath) messages)"

text \<open>A small project for concrete runs: \<open>gone.js\<close> cannot be read, a rule raises in
  \<open>bad.js\<close>, and two rules report the same node of \<open>b.js\<close>.\<close>

definition example_read :: "string \<Rightarrow> js_error + string" where
  "example_read filePath =
     (if filePath = ''gone.js'' then Inl (Thrown ''ENOENT'') else Inr filePath)"

definition example_msg :: "int \<Rightarrow> int \<Rightarrow> string \<Rightarrow> lint_message" where
  "example_msg l c r =
     \<lparr> m_line = l, m_column = c, m_ruleId = Some r, m_message = r, m_fix = None \<rparr>"

definition example_verify :: "string \<Rightarrow> string \<Rightarrow> js_error + lint_message list" where
  "example_verify code filePath =
     (if filePath = ''b.js'' then
        Inr [example_msg 3 1 ''await-in-loop'', example_msg 7 9 ''custom-promisification'',
             example_msg 7 9 ''redundant-new-promise-wrapper'']
      else if filePath = ''a.js'' then Inr [example_msg 12 5 ''await-in-loop'']
      else if filePath = ''bad.js'' then Inl (Thrown ''TypeError'')
      else Inr [])"

definition example_finding :: "nat \<Rightarrow> string \<Rightarrow> int \<Rightarrow> int \<Rightarrow> string \<Rightarrow> finding" where
  "example_finding i f l c r =
     \<lparr> id_F = i, file_F = f, line_F = l, column_F = c, pattern_F = r, message_F = r,
       fixable_F = False \<rparr>"

definition example_report :: "finding list" where
  "example_report =
     [example_finding 1 ''a.js'' 12 5 ''await-in-loop'',
      example_finding 2 ''b.js'' 3 1 ''await-in-loop'',
      example_finding 3 ''b.js'' 7 9 ''custom-promisification'',
      example_finding 4 ''b.js'' 7 9 ''redundant-new-promise-wrapper'']"

subsection \<open>The tracer: async hooks and flush (tracer hook module)\<close>

datatype Origin = User | Library | IO

record PromiseEvent =
  id_E :: nat
  triggerId_E :: nat
  type_E :: string
  start_E :: real
  end_E :: "real option"
  location_E :: "string option"
  origin_E :: "Origin option"
  stack_E :: "string option"

text \<open>What \<open>captureLocation\<close> returns; it is read from the call stack of the host.\<close>

record capture =
  location_C :: "string option"
  origin_C :: "Origin option"
  stack_C :: "string option"

text \<open>
  \<open>events\<close> is a JavaScript \<open>Map\<close>: it keeps its keys in insertion order, \<open>set\<close> on a key
  that is present replaces the value where it stands, and \<open>values()\<close> lists in that order.
\<close>

type_synonym event_map = "(nat \<times> PromiseEvent) list"

fun events_get :: "event_map \<Rightarrow> nat \<Rightarrow> PromiseEvent option" where
  "events_get [] k = None"
| "events_get ((k', v) # rest) k = (if k' = k then Some v else events_get rest k)"

fun events_set :: "nat \<Rightarrow> PromiseEvent \<Rightarrow> event_map \<Rightarrow> event_map" where
  "events_set k v [] = [(k, v)]"
| "events_set k v ((k', v') # rest) =
     (if k' = k then (k, v) # rest else (k', v') # events_set k v rest)"

definition events_values :: "event_map \<Rightarrow> PromiseEvent list" where
  "events_values events = map snd events"

record tracer =
  t0 :: real
  events :: event_map

text \<open>\<open>nowRel\<close>, from the reading of \<open>performance.now()\<close> at the call.\<close>

definition nowRel :: "tracer \<Rightarrow> real \<Rightarrow> real" where
  "nowRel tr perf = perf - t0 tr"

definition init :: "real \<Rightarrow> capture \<Rightarrow> nat \<Rightarrow> string \<Rightarrow> nat \<Rightarrow> tracer \<Rightarrow> tracer" where
  "init perf meta asyncId type triggerAsyncId tr =
     (if type \<noteq> ''PROMISE'' then tr
      else tr\<lparr>events := events_set asyncId
             \<lparr> id_E = asyncId, triggerId_E = triggerAsyncId, type_E = type,
               start_E = nowRel tr perf, end_E = None, location_E = location_C meta,
               origin_E = origin_C meta, stack_E = stack_C meta \<rparr> (events tr)\<rparr>)"

definition promiseResolve :: "real \<Rightarrow> nat \<Rightarrow> tracer \<Rightarrow> tracer" where
  "promiseResolve perf asyncId tr =
     (case events_get (events tr) asyncId of
        None \<Rightarrow> tr
      | Some evt \<Rightarrow>
          if end_E evt = None
          then tr\<lparr>events := events_set asyncId (evt\<lparr>end_E := Some (nowRel tr perf)\<rparr>) (events tr)\<rparr>
          else tr)"

definition destroy :: "real \<Rightarrow> nat \<Rightarrow> tracer \<Rightarrow> tracer" where
  "destroy perf asyncId tr =
     (case events_get (events tr) asyncId of
        None \<Rightarrow> tr
      | Some evt \<Rightarrow>
          if end_E evt = None
          then tr\<lparr>events := events_set asyncId (evt\<lparr>end_E := Some (nowRel tr perf)\<rparr>) (events tr)\<rparr>
          else tr)"

text \<open>One callback of the hook, with the clock reading at the call, and a run of them.\<close>

datatype hook_call =
    Init real capture nat string nat
  | PromiseResolve real nat
  | Destroy real nat

fun fire :: "hook_call \<Rightarrow> tracer \<Rightarrow> tracer" where
  "fire (Init perf meta asyncId type triggerAsyncId) tr = init perf meta asyncId type triggerAsyncId tr"
| "fire (PromiseResolve perf asyncId) tr = promiseResolve perf asyncId tr"
| "fire (Destroy perf asyncId) tr = destroy perf asyncId tr"

fun run_hooks :: "hook_call list \<Rightarrow> tracer \<Rightarrow> tracer" where
  "run_hooks [] tr = tr"
| "run_hooks (c # cs) tr = run_hooks cs (fire c tr)"

text \<open>The task a callback is for, and whether it is a settlement or a teardown.\<close>

fun call_id :: "hook_call \<Rightarrow> nat" where
  "call_id (Init perf meta asyncId type triggerAsyncId) = asyncId"
| "call_id (PromiseResolve perf asyncId) = asyncId"
| "call_id (Destroy perf asyncId) = asyncId"

fun call_perf :: "hook_call \<Rightarrow> real" where
  "call_perf (Init perf meta asyncId type triggerAsyncId) = perf"
| "call_perf (PromiseResolve perf asyncId) = perf"
| "call_perf (Destroy perf asyncId) = perf"

fun is_init :: "hook_call \<Rightarrow> bool" where
  "is_init (Init perf meta asyncId type triggerAsyncId) = True"
| "is_init (PromiseResolve perf asyncId) = False"
| "is_init (Destroy perf asyncId) = False"

text \<open>The first settlement or teardown of task \<open>k\<close> in a run, if there is one.\<close>

definition first_close :: "nat \<Rightarrow> hook_call list \<Rightarrow> hook_call option" where
  "first_close k calls = find (\<lambda>c. \<not> is_init c \<and> call_id c = k) calls"

text \<open>
  What \<open>flush\<close> can change of the host process: the files it writes, the lines it prints
  with \<open>console.error\<close>, and the exit code once \<open>process.exit\<close> was called.
\<close>

datatype console_line = Wrote nat string | FailedToWrite js_error

record host =
  disk :: "string \<Rightarrow> string option"
  stderr :: "console_line list"
  exitCode :: "int option"

text \<open>The file system as the tracer meets it: which calls raise. A write that raises is
  taken to leave the file as it was.\<close>

record fs_env =
  dirname :: "string \<Rightarrow> string"
  mkdir_error :: "string \<Rightarrow> js_error option"
  write_error :: "string \<Rightarrow> string \<Rightarrow> js_error option"

definition safeWriteFileSync :: "fs_env \<Rightarrow> string \<Rightarrow> string \<Rightarrow> host \<Rightarrow> js_error + host" where
  "safeWriteFileSync env file data h =
     (case mkdir_error env (dirname env file) of
        Some e \<Rightarrow>
          (case write_error env file data of
             Some e' \<Rightarrow> Inl e'
           | None \<Rightarrow> Inr (h\<lparr>disk := (disk h)(file \<mapsto> data)\<rparr>))
      | None \<Rightarrow>
          (case write_error env file data of
             Some e' \<Rightarrow> Inl e'
           | None \<Rightarrow> Inr (h\<lparr>disk := (disk h)(file \<mapsto> data)\<rparr>)))"

text \<open>The array that \<open>flush\<close> serialises: the values of \<open>events\<close>, sorted with the
  comparator \<open>(a, b) => a.start - b.start\<close>.\<close>

definition flush_array :: "tracer \<Rightarrow> PromiseEvent list" where
  "flush_array tr = js_sort (\<lambda>a b. start_E a - start_E b) (events_values (events tr))"

text \<open>The body of the \<open>try\<close> of \<open>flush\<close>, and \<open>flush\<close> with its \<open>catch\<close>.
  \<open>stringify\<close> is \<open>JSON.stringify(arr, null, 2)\<close>.\<close>

definition flush_try ::
  "fs_env \<Rightarrow> string \<Rightarrow> (PromiseEvent list \<Rightarrow> string) \<Rightarrow> tracer \<Rightarrow> host \<Rightarrow> js_error + host" where
  "flush_try env OUT_PATH stringify tr h =
     (let arr = flush_array tr in
      case safeWriteFileSync env OUT_PATH (stringify arr) h of
        Inl e \<Rightarrow> Inl e
      | Inr h' \<Rightarrow> Inr (h'\<lparr>stderr := stderr h' @ [Wrote (length arr) OUT_PATH]\<rparr>))"

definition flush ::
  "fs_env \<Rightarrow> string \<Rightarrow> (PromiseEvent list \<Rightarrow> string) \<Rightarrow> tracer \<Rightarrow> host \<Rightarrow> js_error + host" where
  "flush env OUT_PATH stringify tr h =
     (case flush_try env OUT_PATH stringify tr h of
        Inl e \<Rightarrow> Inr (h\<lparr>stderr := stderr h @ [FailedToWrite e]\<rparr>)
      | Inr h' \<Rightarrow> Inr h')"

text \<open>The listeners: \<open>beforeExit\<close> and \<open>exit\<close> call \<open>flush\<close>; \<open>SIGINT\<close> and \<open>SIGTERM\<close>
  call \<open>flush\<close> and then \<open>process.exit\<close>, which runs the \<open>exit\<close> listener.\<close>

datatype proc_event = BeforeExit | Exit | SIGINT | SIGTERM

definition process_exit ::
  "fs_env \<Rightarrow> string \<Rightarrow> (PromiseEvent list \<Rightarrow> string) \<Rightarrow> tracer \<Rightarrow> int \<Rightarrow> host \<Rightarrow> js_error + host" where
  "process_exit env OUT_PATH stringify tr code h =
     flush env OUT_PATH stringify tr (h\<lparr>exitCode := Some code\<rparr>)"

fun on_event ::
  "fs_env \<Rightarrow> string \<Rightarrow> (PromiseEvent list \<Rightarrow> string) \<Rightarrow> tracer \<Rightarrow> proc_event \<Rightarrow> host \<Rightarrow> js_error + host" where
  "on_event env OUT_PATH stringify tr BeforeExit h = flush env OUT_PATH stringify tr h"
| "on_event env OUT_PATH stringify tr Exit h = flush env OUT_PATH stringify tr h"
| "on_event env OUT_PATH stringify tr SIGINT h =
     (case flush env OUT_PATH stringify tr h of
        Inl e \<Rightarrow> Inl e
      | Inr h' \<Rightarrow> process_exit env OUT_PATH stringify tr 130 h')"
| "on_event env OUT_PATH stringify tr SIGTERM h =
     (case flush env OUT_PATH stringify tr h of
        Inl e \<Rightarrow> Inl e
      | Inr h' \<Rightarrow> process_exit env OUT_PATH stringify tr 143 h')"

fun run_events ::
  "fs_env \<Rightarrow> string \<Rightarrow> (PromiseEvent list \<Rightarrow> string) \<Rightarrow> tracer \<Rightarrow> proc_event list \<Rightarrow> host \<Rightarrow> js_error + host" where
  "run_events env OUT_PATH stringify tr [] h = Inr h"
| "run_events env OUT_PATH stringify tr (ev # evs) h =
     (case on_event env OUT_PATH stringify tr ev h of
        Inl e \<Rightarrow> Inl e
      | Inr h' \<Rightarrow> run_events env OUT_PATH stringify tr evs h')"

text \<open>The console line of one \<open>flush\<close>, and the files after it.\<close>

definition flush_line :: "fs_env \<Rightarrow> string \<Rightarrow> (PromiseEvent list \<Rightarrow> string) \<Rightarrow> tracer \<Rightarrow> console_line" where
  "flush_line env OUT_PATH stringify tr =
     (case write_error env OUT_PATH (stringify (flush_array tr)) of
        None \<Rightarrow> Wrote (length (flush_array tr)) OUT_PATH
      | Some e \<Rightarrow> FailedToWrite e)"

definition flush_disk :: "fs_env \<Rightarrow> string \<Rightarrow> (PromiseEvent list \<Rightarrow> string) \<Rightarrow> tracer \<Rightarrow> host \<Rightarrow> string \<Rightarrow> string option" where
  "flush_disk env OUT_PATH stringify tr h =
     (case write_error env OUT_PATH (stringify (flush_array tr)) of
        None \<Rightarrow> (disk h)(OUT_PATH \<mapsto> stringify (flush_array tr))
      | Some e \<Rightarrow> disk h)"

text \<open>A tracer with three recorded tasks, a run of callbacks, a file system in which
  \<open>mkdirSync\<close> raises and one path cannot be written, and a serialiser that lists the
  locations of the events.\<close>

definition example_event :: "nat \<Rightarrow> real \<Rightarrow> real option \<Rightarrow> PromiseEvent" where
  "example_event i s e =
     \<lparr> id_E = i, triggerId_E = 1, type_E = ''PROMISE'', start_E = s, end_E = e,
       location_E = Some (if i = 7 then ''/p/a.js:7:1'' else if i = 8 then ''/p/a.js:8:1''
                          else ''/p/a.js:9:1''),
       origin_E = Some User, stack_E = None \<rparr>"

definition example_tracer :: tracer where
  "example_tracer =
     \<lparr> t0 = 100,
       events = [(7, example_event 7 30 None), (8, example_event 8 10 None),
                 (9, example_event 9 20 (Some 25))] \<rparr>"

definition example_calls :: "hook_call list" where
  "example_calls =
     [Destroy 130 8, Destroy 150 7, PromiseResolve 170 7,
      Init 180 \<lparr> location_C = None, origin_C = None, stack_C = None \<rparr> 10 ''PROMISE'' 7,
      Destroy 190 7]"

definition example_env :: fs_env where
  "example_env =
     \<lparr> dirname = (\<lambda>p. ''.''),
       mkdir_error = (\<lambda>d. Some (Thrown ''EEXIST'')),
       write_error = (\<lambda>p d. if p = ''ro/trace.json'' then Some (Thrown ''EACCES'') else None) \<rparr>"

definition example_stringify :: "PromiseEvent list \<Rightarrow> string" where
  "example_stringify arr =
     concat (map (\<lambda>e. (case location_E e of None \<Rightarrow> [] | Some l \<Rightarrow> l) @ '';'') arr)"

definition example_host :: host where
  "example_host = \<lparr> disk = Map.empty, stderr = [], exitCode = None \<rparr>"

subsection \<open>The correlator: parseLocation and crossReference (server/src/server.ts)\<close>

record report_finding =
  id_R :: nat
  file_R :: string
  funcStart_R :: int
  funcSnippet_R :: "string option"
  rule_R :: string

record TraceEvent =
  id_T :: nat
  triggerId_T :: "nat option"
  type_T :: "string option"
  start_T :: "real option"
  end_T :: "real option"
  location_T :: "string option"
  origin_T :: "string option"

text \<open>
  The pieces of the regular expression \<open>/^(.*):(\d+)(?::\d+)?$/\<close>. \<open>\d\<close> is an ASCII
  digit; \<open>.\<close> is any code unit but a line terminator (of those, line feed and carriage
  return are \<^typ>\<open>char\<close>s).
\<close>

definition isDigit :: "char \<Rightarrow> bool" where
  "isDigit c \<longleftrightarrow> c \<in> set ''0123456789''"

definition isLineTerminator :: "char \<Rightarrow> bool" where
  "isLineTerminator c \<longleftrightarrow> c = CHR 0x0A \<or> c = CHR 0x0D"

text \<open>
  \<open>:(\d+)(?::\d+)?$\<close> at the start of \<open>r\<close>, giving the text of the group \<open>(\d+)\<close>.
  \<open>\d+\<close> is greedy and takes the whole run of digits; with fewer digits the next code
  unit is a digit, where neither \<open>:\<close> nor the end can match. After the run either the
  input ends, or the optional group takes \<open>:\<close> and digits up to the end.
\<close>

definition match_line_col :: "string \<Rightarrow> string option" where
  "match_line_col r =
     (case r of
        [] \<Rightarrow> None
      | c # r1 \<Rightarrow>
          if c \<noteq> CHR '':'' then None
          else
            let ds = takeWhile isDigit r1; t = dropWhile isDigit r1 in
            if ds = [] then None
            else
              (case t of
                 [] \<Rightarrow> Some ds
               | c2 # t2 \<Rightarrow>
                   if c2 = CHR '':'' \<and> t2 \<noteq> [] \<and> list_all isDigit t2 then Some ds else None))"

text \<open>
  The greedy \<open>(.*)\<close> with backtracking: the longest prefix is tried first, then each
  shorter one, and the first prefix after which the rest of the expression matches is
  the match. The result is the pair of the two groups.
\<close>

fun greedy_prefix :: "string \<Rightarrow> nat \<Rightarrow> (string \<times> string) option" where
  "greedy_prefix loc 0 =
     (case match_line_col loc of None \<Rightarrow> None | Some ds \<Rightarrow> Some ([], ds))"
| "greedy_prefix loc (Suc k) =
     (case match_line_col (drop (Suc k) loc) of
        None \<Rightarrow> greedy_prefix loc k
      | Some ds \<Rightarrow> Some (take (Suc k) loc, ds))"

definition regex_match :: "string \<Rightarrow> (string \<times> string) option" where
  "regex_match loc =
     greedy_prefix loc (length (takeWhile (\<lambda>c. \<not> isLineTerminator c) loc))"

text \<open>\<open>Number\<close> of a string of digits (exact below \<open>2^53\<close>).\<close>

definition digit_value :: "char \<Rightarrow> nat" where
  "digit_value c = of_char c - 48"

definition Number_digits :: "string \<Rightarrow> nat" where
  "Number_digits ds = foldl (\<lambda>n c. 10 * n + digit_value c) 0 ds"

text \<open>\<open>parseLocation\<close>: \<open>null\<close> for the empty string and for a string that does not match,
  else \<open>{ abs: m[1], line: Number(m[2]) || 0 }\<close>.\<close>

definition parseLocation :: "string \<Rightarrow> (string \<times> int) option" where
  "parseLocation loc =
     (if loc = [] then None
      else
        (case regex_match loc of
           None \<Rightarrow> None
         | Some (abs_path, ds) \<Rightarrow> Some (abs_path, int (Number_digits ds))))"

text \<open>\<open>s.split(/\r?\n/)\<close>: a line feed ends a piece, and a carriage return right before
  it belongs to the separator. \<open>cur\<close> holds the piece read so far, reversed.\<close>

fun split_lines :: "string \<Rightarrow> string \<Rightarrow> string list" where
  "split_lines [] cur = [rev cur]"
| "split_lines (c # cs) cur =
     (if c = CHR 0x0A then rev cur # split_lines cs []
      else if c = CHR 0x0D \<and> cs \<noteq> [] \<and> hd cs = CHR 0x0A then rev cur # split_lines (tl cs) []
      else split_lines cs (c # cur))"

record fnRange =
  id_FR :: nat
  file_FR :: string
  start_FR :: int
  end_FR :: int
  rule_FR :: string

definition fnRange_of :: "report_finding \<Rightarrow> fnRange" where
  "fnRange_of f =
     (let n = length (split_lines (case funcSnippet_R f of None \<Rightarrow> [] | Some s \<Rightarrow> s) []);
          fnLen = (if n = 0 then 1 else n)
      in \<lparr> id_FR = id_R f, file_FR = file_R f, start_FR = funcStart_R f,
           end_FR = funcStart_R f + int fnLen - 1, rule_FR = rule_R f \<rparr>)"

text \<open>The two counting objects \<open>execCounts\<close> and \<open>byRuleExecuted\<close>: keys with their
  counts, \<open>(obj[k] || 0) + 1\<close> stored under \<open>k\<close>.\<close>

fun obj_get :: "('k \<times> nat) list \<Rightarrow> 'k \<Rightarrow> nat option" where
  "obj_get [] k = None"
| "obj_get ((k', v) # rest) k = (if k' = k then Some v else obj_get rest k)"

fun obj_set :: "'k \<Rightarrow> nat \<Rightarrow> ('k \<times> nat) list \<Rightarrow> ('k \<times> nat) list" where
  "obj_set k v [] = [(k, v)]"
| "obj_set k v ((k', v') # rest) =
     (if k' = k then (k, v) # rest else (k', v') # obj_set k v rest)"

definition obj_incr :: "'k \<Rightarrow> ('k \<times> nat) list \<Rightarrow> ('k \<times> nat) list" where
  "obj_incr k obj = obj_set k ((case obj_get obj k of None \<Rightarrow> 0 | Some n \<Rightarrow> n) + 1) obj"

record counters =
  execCounts_X :: "(nat \<times> nat) list"
  byRuleExecuted_X :: "(string \<times> nat) list"
  userEvents_X :: nat
  libEvents_X :: nat

definition in_range :: "fnRange \<Rightarrow> string \<Rightarrow> int \<Rightarrow> bool" where
  "in_range r rel line \<longleftrightarrow> file_FR r = rel \<and> line \<ge> start_FR r \<and> line \<le> end_FR r"

text \<open>The inner loop \<open>for (const r of fnRanges)\<close>.\<close>

fun count_ranges :: "fnRange list \<Rightarrow> string \<Rightarrow> int \<Rightarrow> counters \<Rightarrow> counters" where
  "count_ranges [] rel line st = st"
| "count_ranges (r # rs) rel line st =
     count_ranges rs rel line
       (if in_range r rel line
        then st\<lparr>execCounts_X := obj_incr (id_FR r) (execCounts_X st),
                byRuleExecuted_X := obj_incr (rule_FR r) (byRuleExecuted_X st)\<rparr>
        else st)"

definition backslashes_to_slashes :: "string \<Rightarrow> string" where
  "backslashes_to_slashes s = map (\<lambda>c. if c = CHR 0x5C then CHR ''/'' else c) s"

text \<open>\<open>ev.location && parseLocation(ev.location)\<close>\<close>

definition event_loc :: "TraceEvent \<Rightarrow> (string \<times> int) option" where
  "event_loc ev = (case location_T ev of None \<Rightarrow> None | Some l \<Rightarrow> parseLocation l)"

text \<open>The outer loop \<open>for (const ev of events)\<close>; \<open>continue\<close> goes to the next event
  before the origin is looked at. \<open>relative\<close> is \<open>path.relative\<close> of Node.\<close>

fun count_events ::
  "(string \<Rightarrow> string \<Rightarrow> string) \<Rightarrow> string \<Rightarrow> fnRange list \<Rightarrow> TraceEvent list \<Rightarrow>
   counters \<Rightarrow> counters" where
  "count_events relative root_dir fnRanges [] st = st"
| "count_events relative root_dir fnRanges (ev # evs) st =
     (case event_loc ev of
        None \<Rightarrow> count_events relative root_dir fnRanges evs st
      | Some (abs_path, line) \<Rightarrow>
          let rel = backslashes_to_slashes (relative root_dir abs_path);
              st1 = count_ranges fnRanges rel line st;
              st2 = (if origin_T ev = Some ''user''
                     then st1\<lparr>userEvents_X := userEvents_X st1 + 1\<rparr>
                     else st1\<lparr>libEvents_X := libEvents_X st1 + 1\<rparr>)
          in count_events relative root_dir fnRanges evs st2)"

record summary =
  totalTraceEvents_S :: nat
  userEvents_S :: nat
  libEvents_S :: nat
  executedFindingCount_S :: nat
  byRuleExecuted_S :: "(string \<times> nat) list"

record overlay =
  execCounts_O :: "(nat \<times> nat) list"
  summary_O :: summary

text \<open>\<open>crossReference\<close>; \<open>report\<close> is \<open>report.findings\<close> when that is an array.\<close>

definition crossReference ::
  "(string \<Rightarrow> string \<Rightarrow> string) \<Rightarrow> string \<Rightarrow> report_finding list option \<Rightarrow> TraceEvent list \<Rightarrow>
   overlay" where
  "crossReference relative root_dir report trace_events =
     (let findings = (case report of None \<Rightarrow> [] | Some fs \<Rightarrow> fs);
          fnRanges = map fnRange_of findings;
          st = count_events relative root_dir fnRanges trace_events
                 \<lparr> execCounts_X = [], byRuleExecuted_X = [], userEvents_X = 0, libEvents_X = 0 \<rparr>
      in \<lparr> execCounts_O = execCounts_X st,
           summary_O =
             \<lparr> totalTraceEvents_S = length trace_events, userEvents_S = userEvents_X st,
               libEvents_S = libEvents_X st,
               executedFindingCount_S = length (execCounts_X st),
               byRuleExecuted_S = byRuleExecuted_X st \<rparr> \<rparr>)"

text \<open>\<open>mergeReportWithExec\<close> reads a count as \<open>overlay.execCounts[f.id] || 0\<close>.\<close>

definition execCount :: "overlay \<Rightarrow> nat \<Rightarrow> nat" where
  "execCount ov i = (case obj_get (execCounts_O ov) i of None \<Rightarrow> 0 | Some n \<Rightarrow> n)"

text \<open>Concrete data: \<open>path.relative\<close> on a path below the root, one finding whose function
  spans lines 10 to 14 of \<open>a.js\<close>, another in \<open>b.js\<close>, and events at several locations.\<close>

definition example_relative :: "string \<Rightarrow> string \<Rightarrow> string" where
  "example_relative root_dir p =
     (if take (length root_dir + 1) p = root_dir @ ''/'' then drop (length root_dir + 1) p else p)"

definition five_lines :: string where
  "five_lines = ''async function f() {'' @ [CHR 0x0A] @ ''  for (const x of xs) {'' @ [CHR 0x0D, CHR 0x0A]
     @ ''    await g(x);'' @ [CHR 0x0A] @ ''  }'' @ [CHR 0x0A] @ ''}''"

definition example_findings :: "report_finding list" where
  "example_findings =
     [\<lparr> id_R = 1, file_R = ''a.js'', funcStart_R = 10, funcSnippet_R = Some five_lines,
        rule_R = ''await-in-loop'' \<rparr>,
      \<lparr> id_R = 2, file_R = ''b.js'', funcStart_R = 10, funcSnippet_R = Some five_lines,
        rule_R = ''await-in-loop'' \<rparr>]"

definition example_trace_event :: "string option \<Rightarrow> string \<Rightarrow> TraceEvent" where
  "example_trace_event l orig =
     \<lparr> id_T = 5, triggerId_T = Some 1, type_T = Some ''PROMISE'', start_T = Some 1,
       end_T = None, location_T = l, origin_T = Some orig \<rparr>"

text \<open>An event \<open>hits\<close> when its location parses and lies in the range of some finding.\<close>

definition hits ::
  "(string \<Rightarrow> string \<Rightarrow> string) \<Rightarrow> string \<Rightarrow> report_finding list option \<Rightarrow> TraceEvent \<Rightarrow> bool" where
  "hits relative root_dir report ev =
     (case event_loc ev of
        None \<Rightarrow> False
      | Some (abs_path, line) \<Rightarrow>
          list_ex (\<lambda>r. in_range r (backslashes_to_slashes (relative root_dir abs_path)) line)
            (map fnRange_of (case report of None \<Rightarrow> [] | Some fs \<Rightarrow> fs)))"

definition resolved_user :: "TraceEvent \<Rightarrow> bool" where
  "resolved_user ev \<longleftrightarrow> event_loc ev \<noteq> None \<and> origin_T ev = Some ''user''"

definition resolved_other :: "TraceEvent \<Rightarrow> bool" where
  "resolved_other ev \<longleftrightarrow> event_loc ev \<noteq> None \<and> origin_T ev \<noteq> Some ''user''"

subsection \<open>The syntax tree that the rules inspect\<close>

text \<open>
  The nodes of the ESTree that the rules look into, each with the fields the rules and
  the traversal read; any other kind of node is an \<open>OtherNode\<close> with its type name and
  its child nodes. Children are listed in the order of the visitor keys. Type
  annotations are not modelled.
\<close>

datatype node =
    Identifier string
  | MemberExpression node node bool
  | CallExpression node "node list"
  | NewExpression node "node list"
  | AwaitExpression node
  | FunctionExpression "node option" "node list" node bool
  | ArrowFunctionExpression "node list" node bool
  | FunctionDeclaration "node option" "node list" node bool
  | BlockStatement "node list"
  | ExpressionStatement node
  | ReturnStatement "node option"
  | ForStatement "node option" "node option" "node option" node
  | ForInStatement node node node
  | ForOfStatement node node node bool
  | WhileStatement node node
  | DoWhileStatement node node
  | TryStatement node "node option" "node option"
  | OtherNode string "node list"

text \<open>
  The fields are, in the order of the arguments: \<open>MemberExpression object property
  computed\<close>; \<open>CallExpression\<close> and \<open>NewExpression callee arguments\<close>; the functions
  \<open>id params body async\<close> (an arrow function has no \<open>id\<close>); \<open>ForStatement init test
  update body\<close>; \<open>ForInStatement\<close> and \<open>ForOfStatement left right body\<close>, the latter
  with its \<open>await\<close> flag; \<open>WhileStatement test body\<close>; \<open>DoWhileStatement body test\<close>;
  \<open>TryStatement block handler finalizer\<close>.
\<close>

definition opt_list :: "'a option \<Rightarrow> 'a list" where
  "opt_list x = (case x of None \<Rightarrow> [] | Some y \<Rightarrow> [y])"

fun children :: "node \<Rightarrow> node list" where
  "children (Identifier name) = []"
| "children (MemberExpression object property computed) = [object, property]"
| "children (CallExpression callee arguments) = callee # arguments"
| "children (NewExpression callee arguments) = callee # arguments"
| "children (AwaitExpression argument) = [argument]"
| "children (FunctionExpression ident params body async) = opt_list ident @ params @ [body]"
| "children (ArrowFunctionExpression params body async) = params @ [body]"
| "children (FunctionDeclaration ident params body async) = opt_list ident @ params @ [body]"
| "children (BlockStatement body) = body"
| "children (ExpressionStatement expression) = [expression]"
| "children (ReturnStatement argument) = opt_list argument"
| "children (ForStatement for_init test update body) =
     opt_list for_init @ opt_list test @ opt_list update @ [body]"
| "children (ForInStatement left right body) = [left, right, body]"
| "children (ForOfStatement left right body await) = [left, right, body]"
| "children (WhileStatement test body) = [test, body]"
| "children (DoWhileStatement body test) = [body, test]"
| "children (TryStatement block handler finalizer) =
     block # opt_list handler @ opt_list finalizer"
| "children (OtherNode type nodes) = nodes"

text \<open>What a rule passes to \<open>context.report\<close>; \<open>fix\<close> is what the fix function returns.\<close>

record token =
  token_type :: string
  token_value :: string
  token_range :: "nat \<times> nat"

datatype rule_fix = ReplaceText node string | Remove token

record report =
  node_R :: node
  messageId_R :: string
  fix_R :: "rule_fix option"

text \<open>A child is smaller than its node: the recursions over the tree end.\<close>

lemma size_in_list: "c \<in> set xs \<Longrightarrow> size (c::node) \<le> size_list size xs"
  by (induction xs) auto

lemma children_size: "c \<in> set (children n) \<Longrightarrow> size c < size n"
  by (cases n) (auto simp: opt_list_def split: option.splits dest!: size_in_list)

lemma list_weight:
  "sum_list (map (\<lambda>c. 4 * size c + 1) xs) \<le> 4 * size_list size xs" for xs :: "node list"
  by (induction xs) simp_all

lemma children_weight:
  "sum_list (map (\<lambda>c. 4 * size c + 1) (children n)) < 4 * size n + 1"
proof (cases n)
  case (CallExpression c xs)
  then show ?thesis using list_weight[of xs] by simp
next
  case (NewExpression c xs)
  then show ?thesis using list_weight[of xs] by simp
next
  case (FunctionExpression i xs b a)
  then show ?thesis using list_weight[of xs] by (simp add: opt_list_def split: option.splits)
next
  case (ArrowFunctionExpression xs b a)
  then show ?thesis using list_weight[of xs] by simp
next
  case (FunctionDeclaration i xs b a)
  then show ?thesis using list_weight[of xs] by (simp add: opt_list_def split: option.splits)
next
  case (BlockStatement xs)
  then show ?thesis using list_weight[of xs] by simp
next
  case (OtherNode k xs)
  then show ?thesis using list_weight[of xs] by simp
qed (simp_all add: opt_list_def split: option.splits)

text \<open>
  One traversal of a tree: the listener of a rule is called at every node with the
  ancestors of the node, outermost first, as \<open>context.getAncestors()\<close> gives them.
\<close>

function visit :: "(node list \<Rightarrow> node \<Rightarrow> report list) \<Rightarrow> node list \<Rightarrow> node \<Rightarrow> report list" where
  "visit listener ancestors n =
     listener ancestors n @ concat (map (visit listener (ancestors @ [n])) (children n))"
  by pat_completeness auto
termination
  by (relation "measure (\<lambda>(listener, ancestors, n). size n)") (auto dest: children_size)

subsection \<open>The rule await-in-loop (cli/src/rules/awaitInLoop.ts)\<close>

definition loops :: "node \<Rightarrow> bool" where
  "loops ancestor =
     (case ancestor of
        ForStatement for_init test update body \<Rightarrow> True
      | ForInStatement left right body \<Rightarrow> True
      | ForOfStatement left right body await \<Rightarrow> True
      | WhileStatement test body \<Rightarrow> True
      | DoWhileStatement body test \<Rightarrow> True
      | _ \<Rightarrow> False)"

definition for_await_of :: "node \<Rightarrow> bool" where
  "for_await_of ancestor =
     (case ancestor of ForOfStatement left right body await \<Rightarrow> await | _ \<Rightarrow> False)"

text \<open>The loop over the ancestors: \<open>continue\<close> on a node that is no loop and on a
  \<open>for await\<close>, report and \<open>break\<close> on the first other loop.\<close>

fun scan_ancestors :: "node list \<Rightarrow> node \<Rightarrow> report list" where
  "scan_ancestors [] n = []"
| "scan_ancestors (ancestor # rest) n =
     (if \<not> loops ancestor then scan_ancestors rest n
      else if for_await_of ancestor then scan_ancestors rest n
      else [\<lparr> node_R = n, messageId_R = ''noAwaitInLoop'', fix_R = None \<rparr>])"

definition awaitInLoopRule :: "node list \<Rightarrow> node \<Rightarrow> report list" where
  "awaitInLoopRule ancestors n =
     (case n of AwaitExpression argument \<Rightarrow> scan_ancestors ancestors n | _ \<Rightarrow> [])"

text \<open>A loop that serialises its iterations: any loop but \<open>for await\<close>.\<close>

definition ordinary_loop :: "node \<Rightarrow> bool" where
  "ordinary_loop n \<longleftrightarrow> loops n \<and> \<not> for_await_of n"

text \<open>The \<open>await\<close> expressions of a tree in the order of the traversal: all of them when
  \<open>inside\<close> holds, else those that have an ordinary loop of the tree among their ancestors
  (the expression lies in the body, the test or the header of that loop).\<close>

function awaits_in :: "bool \<Rightarrow> node \<Rightarrow> node list" where
  "awaits_in inside n =
     (case n of AwaitExpression argument \<Rightarrow> if inside then [n] else [] | _ \<Rightarrow> [])
     @ concat (map (awaits_in (inside \<or> ordinary_loop n)) (children n))"
  by pat_completeness auto
termination
  by (relation "measure (\<lambda>(inside, n). size n)") (auto dest: children_size)

text \<open>The body of a loop statement.\<close>

definition loop_body :: "node \<Rightarrow> node option" where
  "loop_body n =
     (case n of
        ForStatement for_init test update body \<Rightarrow> Some body
      | ForInStatement left right body \<Rightarrow> Some body
      | ForOfStatement left right body await \<Rightarrow> Some body
      | WhileStatement test body \<Rightarrow> Some body
      | DoWhileStatement body test \<Rightarrow> Some body
      | _ \<Rightarrow> None)"

definition noAwaitInLoop :: "node \<Rightarrow> report" where
  "noAwaitInLoop n = \<lparr> node_R = n, messageId_R = ''noAwaitInLoop'', fix_R = None \<rparr>"

text \<open>Programs for concrete runs: a \<open>for ... of\<close> loop, with or without \<open>await\<close>, over one
  of the bodies \<open>{ await f(); }\<close>, \<open>{ while (c) { await f(); } }\<close>,
  \<open>{ while (await f()) {} }\<close> and \<open>{ await f(); while (c) { g(); } }\<close>.\<close>

definition example_await :: node where
  "example_await = AwaitExpression (CallExpression (Identifier ''f'') [])"

definition example_while_body :: node where
  "example_while_body =
     BlockStatement
       [WhileStatement (Identifier ''c'') (BlockStatement [ExpressionStatement example_await])]"

definition example_while_test_body :: node where
  "example_while_test_body = BlockStatement [WhileStatement example_await (BlockStatement [])]"

definition example_sibling_body :: node where
  "example_sibling_body =
     BlockStatement
       [ExpressionStatement example_await,
        WhileStatement (Identifier ''c'')
          (BlockStatement [ExpressionStatement (CallExpression (Identifier ''g'') [])])]"

definition example_plain_body :: node where
  "example_plain_body = BlockStatement [ExpressionStatement example_await]"

definition example_for_of :: "bool \<Rightarrow> node \<Rightarrow> node" where
  "example_for_of await body =
     ForOfStatement (OtherNode ''VariableDeclaration'' [Identifier ''x'']) (Identifier ''xs'') body await"

definition example_program :: "node \<Rightarrow> node" where
  "example_program stmt = OtherNode ''Program'' [stmt]"

subsection \<open>The rule async-function-awaited-return (cli/src/rules/asyncFunctionAwaitedReturn.ts)\<close>

definition is_function :: "node \<Rightarrow> bool" where
  "is_function ancestor =
     (case ancestor of
        FunctionDeclaration ident params body async \<Rightarrow> True
      | FunctionExpression ident params body async \<Rightarrow> True
      | ArrowFunctionExpression params body async \<Rightarrow> True
      | _ \<Rightarrow> False)"

definition func_async :: "node \<Rightarrow> bool" where
  "func_async func =
     (case func of
        FunctionDeclaration ident params body async \<Rightarrow> async
      | FunctionExpression ident params body async \<Rightarrow> async
      | ArrowFunctionExpression params body async \<Rightarrow> async
      | _ \<Rightarrow> False)"

definition is_TryStatement :: "node \<Rightarrow> bool" where
  "is_TryStatement ancestor =
     (case ancestor of TryStatement block handler finalizer \<Rightarrow> True | _ \<Rightarrow> False)"

text \<open>The fix function of the report; \<open>getFirstToken\<close> is \<open>sourceCode.getFirstToken\<close>.\<close>

definition noReturnAwait_fix :: "(node \<Rightarrow> token option) \<Rightarrow> node list \<Rightarrow> node \<Rightarrow> rule_fix option" where
  "noReturnAwait_fix getFirstToken ancestors argument =
     (if list_ex is_TryStatement ancestors then None
      else
        (case getFirstToken argument of
           None \<Rightarrow> None
         | Some awaitToken \<Rightarrow> Some (Remove awaitToken)))"

text \<open>The listener for \<open>ReturnStatement\<close>; \<open>func\<close> is the innermost function among the
  ancestors.\<close>

definition asyncAwaitedReturnRule ::
  "(node \<Rightarrow> token option) \<Rightarrow> node list \<Rightarrow> node \<Rightarrow> report list" where
  "asyncAwaitedReturnRule getFirstToken ancestors n =
     (case n of
        ReturnStatement (Some (AwaitExpression inner)) \<Rightarrow>
          (case find is_function (rev ancestors) of
             None \<Rightarrow> []
           | Some func \<Rightarrow>
               if \<not> func_async func then []
               else
                 [\<lparr> node_R = AwaitExpression inner, messageId_R = ''noReturnAwait'',
                    fix_R = noReturnAwait_fix getFirstToken ancestors (AwaitExpression inner) \<rparr>])
      | _ \<Rightarrow> [])"

subsection \<open>The rule executor-one-arg-used (cli/src/rules/executorOneArgUsed.ts)\<close>

text \<open>
  \<open>isIdentifierUsed\<close> walks the body of the executor with a stack of pairs of a node and
  its parent. JavaScript compares node objects by identity; in the tree a node is the
  \<open>property\<close> of its parent when it was pushed as that child, which the third component
  of an entry records. No node is pushed twice, so the set \<open>seen\<close> never holds the node
  that is popped, and the executor is not inside its own body, so \<open>node !== func\<close> holds
  for every node that is popped.
\<close>

type_synonym stack_entry = "node \<times> node \<times> bool"

definition stack_children :: "node \<Rightarrow> stack_entry list" where
  "stack_children n =
     (case n of
        MemberExpression object property computed \<Rightarrow> [(object, n, False), (property, n, True)]
      | _ \<Rightarrow> map (\<lambda>child. (child, n, False)) (children n))"

text \<open>A nested function with a parameter of the name shadows the name.\<close>

definition shadowed :: "string \<Rightarrow> node \<Rightarrow> bool" where
  "shadowed name n =
     (case n of
        FunctionExpression ident params body async \<Rightarrow> list_ex (\<lambda>param. param = Identifier name) params
      | ArrowFunctionExpression params body async \<Rightarrow> list_ex (\<lambda>param. param = Identifier name) params
      | FunctionDeclaration ident params body async \<Rightarrow> list_ex (\<lambda>param. param = Identifier name) params
      | _ \<Rightarrow> False)"

text \<open>\<open>parent.type === MemberExpression && parent.property === node && !parent.computed\<close>\<close>

definition property_of :: "node \<Rightarrow> bool \<Rightarrow> bool" where
  "property_of parent is_property =
     (case parent of
        MemberExpression object property computed \<Rightarrow> is_property \<and> \<not> computed
      | _ \<Rightarrow> False)"

text \<open>The \<open>while\<close> loop; the top of the stack is the head of the list, and the children of
  a node are pushed in order, so the last child is on top.\<close>

function used_loop :: "string \<Rightarrow> stack_entry list \<Rightarrow> bool" where
  "used_loop name [] = False"
| "used_loop name ((n, parent, is_property) # stack) =
     (if shadowed name n then used_loop name stack
      else if n = Identifier name \<and> \<not> property_of parent is_property then True
      else used_loop name (rev (stack_children n) @ stack))"
  by pat_completeness auto
termination
proof (relation "measure (\<lambda>(name, stack). sum_list (map (\<lambda>e. 4 * size (fst e) + 1) stack))")
  show "wf (measure (\<lambda>(name, stack). sum_list (map (\<lambda>e. 4 * size (fst e) + 1) stack)))"
    by simp
next
  fix name :: string and n parent :: node and is_property :: bool and stack :: "stack_entry list"
  show "((name, stack), (name, (n, parent, is_property) # stack))
          \<in> measure (\<lambda>(name, stack). sum_list (map (\<lambda>e. 4 * size (fst e) + 1) stack))"
    by simp
next
  fix name :: string and n parent :: node and is_property :: bool and stack :: "stack_entry list"
  have "map (\<lambda>e. 4 * size (fst e) + 1) (stack_children n) =
        map (\<lambda>c. 4 * size c + 1) (children n)"
    by (cases n) (simp_all add: stack_children_def comp_def)
  then have "sum_list (map (\<lambda>e. 4 * size (fst e) + 1) (rev (stack_children n))) < 4 * size n + 1"
    using children_weight[of n] by (simp add: rev_map[symmetric] sum_list_rev)
  then show "((name, rev (stack_children n) @ stack), (name, (n, parent, is_property) # stack))
          \<in> measure (\<lambda>(name, stack). sum_list (map (\<lambda>e. 4 * size (fst e) + 1) stack))"
    by simp
qed

definition func_body :: "node \<Rightarrow> node" where
  "func_body func =
     (case func of
        FunctionExpression ident params body async \<Rightarrow> body
      | ArrowFunctionExpression params body async \<Rightarrow> body
      | FunctionDeclaration ident params body async \<Rightarrow> body
      | _ \<Rightarrow> func)"

definition isIdentifierUsed :: "string \<Rightarrow> node \<Rightarrow> bool" where
  "isIdentifierUsed name func = used_loop name [(func_body func, func, False)]"

text \<open>\<open>params[i] && params[i].type === Identifier ? params[i].name : null\<close>\<close>

definition param_name :: "node list \<Rightarrow> nat \<Rightarrow> string option" where
  "param_name params i =
     (if i < length params
      then (case params ! i of Identifier name \<Rightarrow> Some name | _ \<Rightarrow> None)
      else None)"

text \<open>\<open>if (resolveParam) usesResolve = isIdentifierUsed(resolveParam, executor)\<close>: the empty
  string is falsy.\<close>

definition uses_param :: "string option \<Rightarrow> node \<Rightarrow> bool" where
  "uses_param param executor =
     (case param of
        None \<Rightarrow> False
      | Some name \<Rightarrow> if name = [] then False else isIdentifierUsed name executor)"

definition check_executor :: "node \<Rightarrow> node list \<Rightarrow> report list" where
  "check_executor executor params =
     (let resolveParam = param_name params 0;
          rejectParam = param_name params 1;
          usesResolve = uses_param resolveParam executor;
          usesReject = uses_param rejectParam executor;
          paramCount = length params
      in if paramCount < 2 \<or> \<not> (usesResolve \<and> usesReject)
         then [\<lparr> node_R = executor, messageId_R = ''oneArgExecutor'', fix_R = None \<rparr>]
         else [])"

definition executorOneArgUsedRule :: "node \<Rightarrow> report list" where
  "executorOneArgUsedRule n =
     (case n of
        NewExpression callee arguments \<Rightarrow>
          if callee = Identifier ''Promise'' \<and> length arguments = 1
          then
            (case hd arguments of
               FunctionExpression ident params body async \<Rightarrow> check_executor (hd arguments) params
             | ArrowFunctionExpression params body async \<Rightarrow> check_executor (hd arguments) params
             | _ \<Rightarrow> [])
          else []
      | _ \<Rightarrow> [])"

text \<open>
  What the walk decides, by recursion over the tree: it answers \<open>used\<close> when some
  identifier node of that name, in whatever other position, is not the plain property
  of a member expression and lies in no nested function that has a parameter of the
  name. \<open>as_property\<close> says that the node is such a property of its parent.
\<close>

function references :: "string \<Rightarrow> node \<Rightarrow> bool \<Rightarrow> bool" where
  "references name n as_property =
     (if shadowed name n then False
      else if n = Identifier name \<and> \<not> as_property then True
      else list_ex (\<lambda>(child, parent, is_property).
                      references name child (property_of parent is_property))
             (stack_children n))"
  by pat_completeness auto
termination
proof (relation "measure (\<lambda>(name, n, as_property). size n)")
  show "wf (measure (\<lambda>(name, n, as_property). size n))" by simp
next
  fix name :: string and n child parent :: node and as_property is_property :: bool
    and e :: stack_entry and y :: "node \<times> bool"
  assume "e \<in> set (stack_children n)" "(child, y) = e"
  then have "child \<in> set (children n)"
    by (cases n) (auto simp: stack_children_def)
  then show "((name, child, property_of parent is_property), (name, n, as_property))
          \<in> measure (\<lambda>(name, n, as_property). size n)"
    by (simp add: children_size)
qed






subsection \<open>The rule redundant-new-promise-wrapper (cli/src/rules/redundantNewPromiseWrapper.ts)\<close>

definition isIdent :: "node \<Rightarrow> string \<Rightarrow> bool" where
  "isIdent n name \<longleftrightarrow> n = Identifier name"

definition is_ExpressionStatement :: "node \<Rightarrow> bool" where
  "is_ExpressionStatement stmt =
     (case stmt of ExpressionStatement expression \<Rightarrow> True | _ \<Rightarrow> False)"

text \<open>\<open>firstExprStmt\<close>: the first expression statement of a block body.\<close>

definition firstExprStmt :: "node \<Rightarrow> node option" where
  "firstExprStmt body =
     (case body of BlockStatement stmts \<Rightarrow> find is_ExpressionStatement stmts | _ \<Rightarrow> None)"

text \<open>\<open>params[i].type === Identifier && isIdent(args[i], params[i].name)\<close>, for an index
  that both lists have.\<close>

definition forwards_param :: "node list \<Rightarrow> node list \<Rightarrow> nat \<Rightarrow> bool" where
  "forwards_param params args i =
     (case params ! i of Identifier name \<Rightarrow> isIdent (args ! i) name | _ \<Rightarrow> False)"

text \<open>
  The first test: the first expression statement is a call of a member named \<open>then\<close>
  whose first argument is the first parameter. The result is the pair of \<open>isRedundant\<close>
  and \<open>replacement\<close>; \<open>getText\<close> is \<open>sourceCode.getText\<close>.
\<close>

definition then_forwarding ::
  "(node \<Rightarrow> string) \<Rightarrow> node list \<Rightarrow> node \<Rightarrow> bool \<times> string option" where
  "then_forwarding getText params body =
     (case firstExprStmt body of
        Some (ExpressionStatement (CallExpression (MemberExpression object property computed) args)) \<Rightarrow>
          if property = Identifier ''then'' \<and> length args \<ge> 1
          then
            if length args \<ge> 1 \<and> length params \<ge> 1 \<and> forwards_param params args 0
            then
              let base = getText object in
              if length args \<ge> 2 \<and> length params \<ge> 2 \<and> forwards_param params args 1
              then (True, Some base)
              else (True, Some base)
            else (False, None)
          else (False, None)
      | _ \<Rightarrow> (False, None))"

text \<open>The second test: the only statement of a block body calls the first parameter with
  one argument that is an identifier, a call or a member expression.\<close>

definition resolve_forwarding ::
  "(node \<Rightarrow> string) \<Rightarrow> node list \<Rightarrow> node \<Rightarrow> bool \<times> string option \<Rightarrow> bool \<times> string option" where
  "resolve_forwarding getText params body st =
     (case hd params of
        Identifier resName \<Rightarrow>
          (case body of
             BlockStatement [ExpressionStatement (CallExpression callee cargs)] \<Rightarrow>
               if callee = Identifier resName \<and> length cargs = 1
               then
                 (case hd cargs of
                    Identifier a \<Rightarrow> (True, Some (getText (hd cargs)))
                  | CallExpression a b \<Rightarrow> (True, Some (getText (hd cargs)))
                  | MemberExpression a b c \<Rightarrow> (True, Some (getText (hd cargs)))
                  | _ \<Rightarrow> st)
               else st
           | _ \<Rightarrow> st)
      | _ \<Rightarrow> st)"

definition check_wrapper ::
  "(node \<Rightarrow> string) \<Rightarrow> node \<Rightarrow> node list \<Rightarrow> node \<Rightarrow> report list" where
  "check_wrapper getText n params body =
     (let st1 = then_forwarding getText params body;
          st2 = (if \<not> fst st1 \<and> length params \<ge> 1
                 then resolve_forwarding getText params body st1 else st1)
      in case st2 of
           (isRedundant, replacement) \<Rightarrow>
             (case replacement of
                None \<Rightarrow> []
              | Some text \<Rightarrow>
                  if isRedundant \<and> text \<noteq> []
                  then [\<lparr> node_R = n, messageId_R = ''redundantWrapper'',
                          fix_R = Some (ReplaceText n text) \<rparr>]
                  else []))"

definition redundantNewPromiseWrapperRule :: "(node \<Rightarrow> string) \<Rightarrow> node \<Rightarrow> report list" where
  "redundantNewPromiseWrapperRule getText n =
     (case n of
        NewExpression callee arguments \<Rightarrow>
          if callee \<noteq> Identifier ''Promise'' \<or> length arguments \<noteq> 1 then []
          else
            (case hd arguments of
               FunctionExpression ident params body async \<Rightarrow> check_wrapper getText n params body
             | ArrowFunctionExpression params body async \<Rightarrow> check_wrapper getText n params body
             | _ \<Rightarrow> [])
      | _ \<Rightarrow> [])"

text \<open>
  Concrete executors: \<open>(resolve, reject) => { inner.then(resolve, reject); }\<close>,
  \<open>(resolve, reject) => {}\<close> and \<open>(resolve, reject) => { setTimeout(resolve, 10); }\<close>;
  a source text for the nodes of the first; and the statement
  \<open>return await load();\<close> with its \<open>await\<close> token.
\<close>

definition example_then_call :: node where
  "example_then_call =
     CallExpression (MemberExpression (Identifier ''inner'') (Identifier ''then'') False)
       [Identifier ''resolve'', Identifier ''reject'']"

definition example_executor :: "node \<Rightarrow> node" where
  "example_executor body =
     ArrowFunctionExpression [Identifier ''resolve'', Identifier ''reject''] body False"

definition example_forwarding :: node where
  "example_forwarding = example_executor (BlockStatement [ExpressionStatement example_then_call])"



text \<open>\<open>(resolve, reject) => { resolve({ reject: 1 }); }\<close>\<close>

definition example_object_key :: node where
  "example_object_key =
     example_executor
       (BlockStatement
         [ExpressionStatement
           (CallExpression (Identifier ''resolve'')
             [OtherNode ''ObjectExpression''
               [OtherNode ''Property'' [Identifier ''reject'', OtherNode ''Literal'' []]]])])"

definition new_Promise :: "node \<Rightarrow> node" where
  "new_Promise executor = NewExpression (Identifier ''Promise'') [executor]"

definition example_getText :: "node \<Rightarrow> string" where
  "example_getText n = (case n of Identifier name \<Rightarrow> name | _ \<Rightarrow> ''...'')"

definition example_return :: node where
  "example_return = ReturnStatement (Some (AwaitExpression (CallExpression (Identifier ''load'') [])))"

definition example_await_token :: token where
  "example_await_token = \<lparr> token_type = ''Keyword'', token_value = ''await'', token_range = (7, 12) \<rparr>"

definition example_getFirstToken :: "node \<Rightarrow> token option" where
  "example_getFirstToken n =
     (case n of AwaitExpression argument \<Rightarrow> Some example_await_token | _ \<Rightarrow> None)"

definition example_async_function :: "node \<Rightarrow> node" where
  "example_async_function body = FunctionDeclaration (Some (Identifier ''f'')) [] body True"

section \<open>Properties of the static analyzer\<close>

lemma compareFn_le_iff: "compareFn a b \<le> 0 \<longleftrightarrow> pos_key a \<le> pos_key b"
  by (auto simp: compareFn_def pos_key_def less_eq_prod_def)

lemma position_le_iff: "position_le a b \<longleftrightarrow> pos_key a \<le> pos_key b"
  by (auto simp: position_le_def pos_key_def less_eq_prod_def)

lemma js_insert_compareFn: "js_insert compareFn x xs = insort_key pos_key x xs"
  by (induction xs) (simp_all add: compareFn_le_iff)

lemma js_sort_compareFn: "js_sort compareFn xs = sort_key pos_key xs"
  by (induction xs) (simp_all add: js_insert_compareFn)

lemma collect_results_Inr:
  "collect_results rd verify files acc = Inr rs \<Longrightarrow>
   rs = acc @ concat (map (file_findings rd verify) files)"
proof (induction files arbitrary: acc)
  case Nil
  then show ?case by simp
next
  case (Cons a files)
  from Cons.prems obtain code ms where a: "rd a = Inr code" "verify code a = Inr ms"
    and r: "collect_results rd verify files (acc @ map (push_message a) ms) = Inr rs"
    by (auto split: sum.splits)
  have "file_findings rd verify a = map (push_message a) ms"
    using a by (simp add: file_findings_def lint_file_def)
  with Cons.IH[OF r] show ?case by simp
qed

lemma collect_results_ok_iff:
  "(\<exists>rs. collect_results rd verify files acc = Inr rs) \<longleftrightarrow>
   (\<forall>fp \<in> set files. \<exists>ms. lint_file rd verify fp = Inr ms)"
  by (induction files arbitrary: acc) (auto simp: lint_file_def split: sum.splits)

lemma file_findings_file: "f \<in> set (file_findings rd verify fp) \<Longrightarrow> file_F f = fp"
  by (auto simp: file_findings_def push_message_def split: sum.splits)

lemma filter_concat_file:
  assumes "distinct files" "\<And>x. P x \<Longrightarrow> file_F x = fp"
  shows "filter P (concat (map (file_findings rd verify) files)) =
         (if fp \<in> set files then filter P (file_findings rd verify fp) else [])"
  using assms(1)
proof (induction files)
  case Nil
  then show ?case by simp
next
  case (Cons a files)
  have other: "filter P (file_findings rd verify q) = []" if "q \<noteq> fp" for q
    using that assms(2) by (auto simp: filter_empty_conv dest: file_findings_file)
  show ?case
  proof (cases "a = fp")
    case True
    with Cons show ?thesis by simp
  next
    case False
    with Cons other[of a] show ?thesis by simp
  qed
qed

lemma mset_concat_perm:
  "mset xs = mset ys \<Longrightarrow> mset (concat (map g xs)) = mset (concat (map g ys))"
proof -
  assume eq: "mset xs = mset ys"
  have "mset (concat (map g zs)) = sum_mset (image_mset (\<lambda>x. mset (g x)) (mset zs))" for zs
    by (induction zs) simp_all
  with eq show ?thesis by simp
qed

lemma sort_concat_perm:
  assumes "distinct files" "mset files' = mset files"
  shows "sort_key pos_key (concat (map (file_findings rd verify) files')) =
         sort_key pos_key (concat (map (file_findings rd verify) files))"
proof (rule properties_for_sort_key)
  let ?xs = "concat (map (file_findings rd verify) files)"
  let ?xs' = "concat (map (file_findings rd verify) files')"
  show "mset (sort_key pos_key ?xs) = mset ?xs'"
    using mset_concat_perm[OF assms(2), of "file_findings rd verify"] by simp
  show "sorted (map pos_key (sort_key pos_key ?xs))" by simp
  fix k assume "k \<in> set (sort_key pos_key ?xs)"
  have d': "distinct files'" using assms by (metis mset_eq_imp_distinct_iff)
  have s: "set files' = set files" using assms(2) by (rule mset_eq_setD)
  have P: "\<And>x. pos_key k = pos_key x \<Longrightarrow> file_F x = file_F k" by (simp add: pos_key_def)
  have "filter (\<lambda>x. pos_key k = pos_key x) (sort_key pos_key ?xs) = filter (\<lambda>x. pos_key k = pos_key x) ?xs"
  proof -
    have c: "filter (\<lambda>x. pos_key k = pos_key x) ys = filter (\<lambda>x. pos_key x = pos_key k) ys"
      for ys :: "finding list"
      by (rule filter_cong) auto
    show ?thesis unfolding c by (rule sort_key_stable)
  qed
  also have "\<dots> = filter (\<lambda>x. pos_key k = pos_key x) ?xs'"
  proof -
    have A: "filter (\<lambda>x. pos_key k = pos_key x) ?xs =
        (if file_F k \<in> set files
         then filter (\<lambda>x. pos_key k = pos_key x) (file_findings rd verify (file_F k)) else [])"
      by (rule filter_concat_file[OF assms(1)]) (simp add: pos_key_def)
    have B: "filter (\<lambda>x. pos_key k = pos_key x) ?xs' =
        (if file_F k \<in> set files'
         then filter (\<lambda>x. pos_key k = pos_key x) (file_findings rd verify (file_F k)) else [])"
      by (rule filter_concat_file[OF d']) (simp add: pos_key_def)
    show ?thesis unfolding A B s ..
  qed
  finally show "filter (\<lambda>x. pos_key k = pos_key x) (sort_key pos_key ?xs) = filter (\<lambda>x. pos_key k = pos_key x) ?xs'" .
qed

lemma map_id_assign_ids: "map id_F (assign_ids k xs) = [Suc k..<Suc k + length xs]"
  by (induction k xs rule: assign_ids.induct) (simp_all add: upt_rec)

lemma pos_key_assign_ids: "map pos_key (assign_ids k xs) = map pos_key xs"
  by (induction k xs rule: assign_ids.induct) (simp_all add: pos_key_def)

lemma length_assign_ids: "length (assign_ids k xs) = length xs"
  by (induction k xs rule: assign_ids.induct) simp_all

lemma sorted_wrt_position_le: "sorted_wrt position_le xs \<longleftrightarrow> sorted (map pos_key xs)"
  by (induction xs) (auto simp: position_le_iff)

lemma reset_assign_ids:
  "map (\<lambda>f. f\<lparr>id_F := 0\<rparr>) (assign_ids k xs) = map (\<lambda>f. f\<lparr>id_F := 0\<rparr>) xs"
  by (induction k xs rule: assign_ids.induct) simp_all

lemma reset_file_findings:
  "map (\<lambda>f. f\<lparr>id_F := 0\<rparr>) (file_findings rd verify fp) = file_findings rd verify fp"
  by (simp add: file_findings_def push_message_def split: sum.splits)

lemma reset_collected:
  "image_mset (\<lambda>f. f\<lparr>id_F := 0\<rparr>) (mset (concat (map (file_findings rd verify) files))) =
   mset (concat (map (file_findings rd verify) files))"
proof (induction files)
  case Nil
  then show ?case by simp
next
  case (Cons fp files)
  have "image_mset (\<lambda>f. f\<lparr>id_F := 0\<rparr>) (mset (file_findings rd verify fp)) =
        mset (file_findings rd verify fp)"
    using reset_file_findings[of rd verify fp] by (metis mset_map)
  with Cons show ?case by simp
qed

text \<open>
  Claim C1. \<open>runAnalysis\<close> sorts the collected findings by file, then line, then column,
  and numbers them from 1 in that order: the report holds, up to the ids, exactly the
  findings pushed for the messages of all files, it is ascending in (file, line, column),
  and its ids are 1, 2, ... in that order. When the walk enumerates the same files (each
  path once, as a walk of a directory tree gives them) in another order, the analysis of
  the unchanged content returns the same findings in the same order with the same ids.
\<close>

theorem runAnalysis_ids_independent_of_enumeration:
  assumes "distinct files" and "mset files' = mset files"
    and "runAnalysis readFileSync verify files = Inr report"
  shows "runAnalysis readFileSync verify files' = Inr report \<and>
         mset (map (\<lambda>f. f\<lparr>id_F := 0\<rparr>) report) =
           mset (concat (map (file_findings readFileSync verify) files)) \<and>
         sorted_wrt position_le report \<and>
         map id_F report = [1..<Suc (length report)]"
proof -
  obtain rs where rs: "collect_results readFileSync verify files [] = Inr rs"
    and rep: "report = assign_ids 0 (js_sort compareFn rs)"
    using assms(3) by (auto simp: runAnalysis_def split: sum.splits)
  have "\<exists>rs'. collect_results readFileSync verify files' [] = Inr rs'"
    using rs collect_results_ok_iff[of readFileSync verify files "[]"]
      collect_results_ok_iff[of readFileSync verify files' "[]"] mset_eq_setD[OF assms(2)]
    by blast
  then obtain rs' where rs': "collect_results readFileSync verify files' [] = Inr rs'" ..
  have "js_sort compareFn rs' = js_sort compareFn rs"
    using collect_results_Inr[OF rs] collect_results_Inr[OF rs'] sort_concat_perm[OF assms(1,2)]
    by (simp add: js_sort_compareFn)
  then have 1: "runAnalysis readFileSync verify files' = Inr report"
    using rs' rep by (simp add: runAnalysis_def)
  have 2: "sorted_wrt position_le report"
    by (simp add: rep sorted_wrt_position_le pos_key_assign_ids js_sort_compareFn)
  have 3: "map id_F report = [1..<Suc (length report)]"
    by (simp add: rep map_id_assign_ids length_assign_ids)
  have "mset (map (\<lambda>f. f\<lparr>id_F := 0\<rparr>) report) =
        image_mset (\<lambda>f. f\<lparr>id_F := 0\<rparr>) (mset (sort_key pos_key rs))"
    unfolding rep reset_assign_ids js_sort_compareFn by simp
  also have "\<dots> = image_mset (\<lambda>f. f\<lparr>id_F := 0\<rparr>)
        (mset (concat (map (file_findings readFileSync verify) files)))"
    using collect_results_Inr[OF rs] by simp
  also have "\<dots> = mset (concat (map (file_findings readFileSync verify) files))"
    by (rule reset_collected)
  finally have 4: "mset (map (\<lambda>f. f\<lparr>id_F := 0\<rparr>) report) =
        mset (concat (map (file_findings readFileSync verify) files))" .
  from 1 2 3 4 show ?thesis by blast
qed

theorem runAnalysis_ids_independent_of_enumeration_witness:
  "distinct [''b.js'', ''a.js''] \<and> mset [''a.js'', ''b.js''] = mset [''b.js'', ''a.js''] \<and>
   runAnalysis example_read example_verify [''b.js'', ''a.js''] = Inr example_report \<and>
   runAnalysis example_read example_verify [''a.js'', ''b.js''] = Inr example_report \<and>
   mset (map (\<lambda>f. f\<lparr>id_F := 0\<rparr>) example_report) =
     mset (concat (map (file_findings example_read example_verify) [''b.js'', ''a.js''])) \<and>
   sorted_wrt position_le example_report \<and>
   map id_F example_report = [1..<Suc (length example_report)]"
proof -
  have d: "distinct [''b.js'', ''a.js'']" by simp
  have m: "mset [''a.js'', ''b.js''] = mset [''b.js'', ''a.js'']" by simp
  have r: "runAnalysis example_read example_verify [''b.js'', ''a.js''] = Inr example_report"
    by (simp add: runAnalysis_def example_read_def example_verify_def example_msg_def
        push_message_def compareFn_def example_report_def example_finding_def)
  from runAnalysis_ids_independent_of_enumeration[OF d m r] d m r show ?thesis by blast
qed

lemma collect_results_exception:
  assumes "lint_file rd verify fp = Inl e"
    and "\<forall>q \<in> set pre. \<exists>ms. lint_file rd verify q = Inr ms"
  shows "collect_results rd verify (pre @ fp # post) acc = Inl e"
  using assms
  by (induction pre arbitrary: acc) (auto simp: lint_file_def split: sum.splits)

text \<open>
  Claim C5, as the code has it. \<open>runAnalysis\<close> has no handler around the linting of a
  file: when reading or linting one file raises (as \<open>Linter.verify\<close> does when a rule
  raises) and the files before it did not, the analysis ends with that exception and
  returns no report, whatever files follow.
\<close>

theorem runAnalysis_exception_aborts:
  assumes "lint_file readFileSync verify filePath = Inl e"
    and "\<forall>q \<in> set pre. \<exists>ms. lint_file readFileSync verify q = Inr ms"
  shows "runAnalysis readFileSync verify (pre @ filePath # post) = Inl e"
  using collect_results_exception[OF assms] by (simp add: runAnalysis_def)

theorem runAnalysis_exception_aborts_witness:
  "lint_file example_read example_verify ''bad.js'' = Inl (Thrown ''TypeError'') \<and>
   lint_file example_read example_verify ''a.js'' = Inr [example_msg 12 5 ''await-in-loop''] \<and>
   runAnalysis example_read example_verify ([''a.js''] @ ''bad.js'' # [''b.js'']) =
     Inl (Thrown ''TypeError'')"
proof -
  have a: "lint_file example_read example_verify ''bad.js'' = Inl (Thrown ''TypeError'')"
    by (simp add: lint_file_def example_read_def example_verify_def)
  have b: "\<forall>q \<in> set [''a.js'']. \<exists>ms. lint_file example_read example_verify q = Inr ms"
    by (simp add: lint_file_def example_read_def example_verify_def)
  have c: "lint_file example_read example_verify ''a.js'' = Inr [example_msg 12 5 ''await-in-loop'']"
    by (simp add: lint_file_def example_read_def example_verify_def)
  from runAnalysis_exception_aborts[OF a b] a c show ?thesis by blast
qed

text \<open>
  The claim as the specification states it fails: a rule raises in \<open>bad.js\<close>, and the
  findings of \<open>a.js\<close> and \<open>b.js\<close> are not reported, the analysis ends with the exception.
\<close>

theorem runAnalysis_rule_exception_counterexample:
  "runAnalysis example_read example_verify [''a.js'', ''bad.js'', ''b.js''] =
     Inl (Thrown ''TypeError'')"
  by (simp add: runAnalysis_def lint_file_def example_read_def example_verify_def)

section \<open>Properties of the tracer\<close>

lemma events_get_set: "events_get (events_set k v m) k' = (if k' = k then Some v else events_get m k')"
  by (induction k v m rule: events_set.induct) auto

lemma t0_fire [simp]: "t0 (fire c tr) = t0 tr"
  by (cases c) (auto simp: init_def promiseResolve_def destroy_def split: option.splits)

lemma fire_other:
  assumes "call_id c \<noteq> k"
  shows "events_get (events (fire c tr)) k = events_get (events tr) k"
  using assms
  by (cases c) (auto simp: init_def promiseResolve_def destroy_def events_get_set split: option.splits)

lemma fire_close:
  assumes "\<not> is_init c" "call_id c = k" "events_get (events tr) k = Some evt"
  shows "events_get (events (fire c tr)) k =
         Some (if end_E evt = None then evt\<lparr>end_E := Some (call_perf c - t0 tr)\<rparr> else evt)"
  using assms
  by (cases c) (auto simp: promiseResolve_def destroy_def events_get_set nowRel_def)

text \<open>
  Claim C2. The \<open>end\<close> of a task's record is assigned once. For a recorded task, over any
  run of hook callbacks in which the task is not created again (async ids are not
  reused), \<open>end\<close> keeps the value it has, and when it has none it takes the clock reading
  of the first \<open>promiseResolve\<close> or \<open>destroy\<close> for that task: later callbacks for the task
  leave it as it is.
\<close>

theorem end_single_assignment:
  assumes "events_get (events tr) k = Some evt"
    and "\<forall>c \<in> set calls. is_init c \<longrightarrow> call_id c \<noteq> k"
  shows "\<exists>evt'. events_get (events (run_hooks calls tr)) k = Some evt' \<and>
           end_E evt' =
             (case end_E evt of
                Some t \<Rightarrow> Some t
              | None \<Rightarrow> map_option (\<lambda>c. call_perf c - t0 tr) (first_close k calls))"
  using assms
proof (induction calls arbitrary: tr evt)
  case Nil
  then show ?case by (simp add: first_close_def split: option.splits)
next
  case (Cons c calls)
  show ?case
  proof (cases "\<not> is_init c \<and> call_id c = k")
    case True
    let ?evt = "if end_E evt = None then evt\<lparr>end_E := Some (call_perf c - t0 tr)\<rparr> else evt"
    have g: "events_get (events (fire c tr)) k = Some ?evt"
      using fire_close[of c k tr evt] True Cons.prems(1) by simp
    have r: "\<forall>c \<in> set calls. is_init c \<longrightarrow> call_id c \<noteq> k" using Cons.prems(2) by simp
    from Cons.IH[OF g r] True show ?thesis
      by (auto simp: first_close_def split: option.splits)
  next
    case False
    then have "call_id c \<noteq> k" using Cons.prems(2) by auto
    then have g: "events_get (events (fire c tr)) k = Some evt"
      using fire_other[of c k tr] Cons.prems(1) by simp
    have r: "\<forall>c \<in> set calls. is_init c \<longrightarrow> call_id c \<noteq> k" using Cons.prems(2) by simp
    from Cons.IH[OF g r] False show ?thesis
      by (auto simp: first_close_def split: option.splits)
  qed
qed

theorem end_single_assignment_witness:
  "map_option end_E (events_get (events (run_hooks example_calls example_tracer)) 7) = Some (Some 50)"
proof -
  have a: "events_get (events example_tracer) 7 = Some (example_event 7 30 None)"
    by (simp add: example_tracer_def)
  have b: "\<forall>c \<in> set example_calls. is_init c \<longrightarrow> call_id c \<noteq> 7"
    by (simp add: example_calls_def)
  from end_single_assignment[OF a b] show ?thesis
    by (auto simp: first_close_def example_calls_def example_event_def example_tracer_def)
qed

lemma js_insert_start: "js_insert (\<lambda>a b. start_E a - start_E b) x xs = insort_key start_E x xs"
  by (induction xs) simp_all

lemma js_sort_start: "js_sort (\<lambda>a b. start_E a - start_E b) xs = sort_key start_E xs"
  by (induction xs) (simp_all add: js_insert_start)

lemma flush_result:
  "flush env out str tr h =
     Inr (case write_error env out (str (flush_array tr)) of
            None \<Rightarrow> h\<lparr>disk := (disk h)(out \<mapsto> str (flush_array tr)),
                      stderr := stderr h @ [Wrote (length (flush_array tr)) out]\<rparr>
          | Some e \<Rightarrow> h\<lparr>stderr := stderr h @ [FailedToWrite e]\<rparr>)"
  by (simp add: flush_def flush_try_def safeWriteFileSync_def Let_def split: option.splits)

lemma flush_step:
  "\<exists>h'. flush env out str tr h = Inr h' \<and> disk h' = flush_disk env out str tr h \<and>
        stderr h' = stderr h @ [flush_line env out str tr]"
  by (simp add: flush_result flush_disk_def flush_line_def split: option.splits)

lemma flush_disk_idem:
  "disk h' = flush_disk env out str tr h \<Longrightarrow> flush_disk env out str tr h' = flush_disk env out str tr h"
  by (simp add: flush_disk_def split: option.splits)

lemma flush_disk_exitCode [simp]:
  "flush_disk env out str tr (h\<lparr>exitCode := c\<rparr>) = flush_disk env out str tr h"
  by (simp add: flush_disk_def split: option.splits)

lemma flush_twice:
  "\<exists>h1 h2. flush env out str tr h = Inr h1 \<and> flush env out str tr (h1\<lparr>exitCode := c\<rparr>) = Inr h2 \<and>
     disk h2 = flush_disk env out str tr h \<and>
     stderr h2 = stderr h @ replicate 2 (flush_line env out str tr)"
proof -
  obtain h1 where h1: "flush env out str tr h = Inr h1" "disk h1 = flush_disk env out str tr h"
    "stderr h1 = stderr h @ [flush_line env out str tr]"
    using flush_step by blast
  obtain h2 where h2: "flush env out str tr (h1\<lparr>exitCode := c\<rparr>) = Inr h2"
    "disk h2 = flush_disk env out str tr (h1\<lparr>exitCode := c\<rparr>)"
    "stderr h2 = stderr (h1\<lparr>exitCode := c\<rparr>) @ [flush_line env out str tr]"
    using flush_step by blast
  have "disk h2 = flush_disk env out str tr h"
    using h2(2) flush_disk_idem[OF h1(2)] by simp
  moreover have "stderr h2 = stderr h @ replicate 2 (flush_line env out str tr)"
    using h2(3) h1(3) by (simp add: numeral_2_eq_2)
  ultimately show ?thesis using h1(1) h2(1) by blast
qed

lemma on_event_step:
  "\<exists>h' n. on_event env out str tr ev h = Inr h' \<and> 0 < n \<and>
     disk h' = flush_disk env out str tr h \<and>
     stderr h' = stderr h @ replicate n (flush_line env out str tr)"
proof (cases ev)
  case BeforeExit
  obtain h1 where "flush env out str tr h = Inr h1" "disk h1 = flush_disk env out str tr h"
    "stderr h1 = stderr h @ replicate 1 (flush_line env out str tr)"
    using flush_step[of env out str tr h] by auto
  with BeforeExit show ?thesis by (intro exI[of _ h1] exI[of _ 1]) simp
next
  case Exit
  obtain h1 where "flush env out str tr h = Inr h1" "disk h1 = flush_disk env out str tr h"
    "stderr h1 = stderr h @ replicate 1 (flush_line env out str tr)"
    using flush_step[of env out str tr h] by auto
  with Exit show ?thesis by (intro exI[of _ h1] exI[of _ 1]) simp
next
  case SIGINT
  obtain h1 h2 where "flush env out str tr h = Inr h1"
    "flush env out str tr (h1\<lparr>exitCode := Some 130\<rparr>) = Inr h2"
    "disk h2 = flush_disk env out str tr h"
    "stderr h2 = stderr h @ replicate 2 (flush_line env out str tr)"
    using flush_twice[of env out str tr h "Some 130"] by blast
  with SIGINT show ?thesis by (intro exI[of _ h2] exI[of _ 2]) (simp add: process_exit_def)
next
  case SIGTERM
  obtain h1 h2 where "flush env out str tr h = Inr h1"
    "flush env out str tr (h1\<lparr>exitCode := Some 143\<rparr>) = Inr h2"
    "disk h2 = flush_disk env out str tr h"
    "stderr h2 = stderr h @ replicate 2 (flush_line env out str tr)"
    using flush_twice[of env out str tr h "Some 143"] by blast
  with SIGTERM show ?thesis by (intro exI[of _ h2] exI[of _ 2]) (simp add: process_exit_def)
qed

lemma run_events_step:
  "evs \<noteq> [] \<Longrightarrow> \<exists>h' n. run_events env out str tr evs h = Inr h' \<and> 0 < n \<and>
     disk h' = flush_disk env out str tr h \<and>
     stderr h' = stderr h @ replicate n (flush_line env out str tr)"
proof (induction evs arbitrary: h)
  case Nil
  then show ?case by simp
next
  case (Cons ev evs)
  obtain h1 n1 where h1: "on_event env out str tr ev h = Inr h1" "0 < n1"
    "disk h1 = flush_disk env out str tr h"
    "stderr h1 = stderr h @ replicate n1 (flush_line env out str tr)"
    using on_event_step by blast
  show ?case
  proof (cases "evs = []")
    case True
    with h1 show ?thesis by (intro exI[of _ h1] exI[of _ n1]) simp
  next
    case False
    from Cons.IH[OF False, of h1] obtain h2 n2 where h2:
      "run_events env out str tr evs h1 = Inr h2" "0 < n2"
      "disk h2 = flush_disk env out str tr h1"
      "stderr h2 = stderr h1 @ replicate n2 (flush_line env out str tr)"
      by blast
    have "disk h2 = flush_disk env out str tr h" using h2(3) flush_disk_idem[OF h1(3)] by simp
    moreover have "stderr h2 = stderr h @ replicate (n1 + n2) (flush_line env out str tr)"
      using h2(4) h1(4) by (simp add: replicate_add)
    ultimately show ?thesis using h1(1,2) h2(1)
      by (intro exI[of _ h2] exI[of _ "n1 + n2"]) simp
  qed
qed

text \<open>
  Claim C10. Every listener that the tracer registers (\<open>beforeExit\<close>, \<open>exit\<close>, \<open>SIGINT\<close>,
  \<open>SIGTERM\<close>) runs \<open>flush\<close>. Over any non-empty run of them no exception leaves a
  listener; every flush passes the same array to the write, the recorded events sorted
  by ascending \<open>start\<close>, so the file holds that array when the write succeeds and is as
  it was when the write raises; the only other trace of a flush is one console line for
  each call, which names the failure when there is one.
\<close>

theorem flush_sorted_repeatable_contained:
  assumes "evs \<noteq> []"
  shows "\<exists>h' n. run_events env OUT_PATH stringify tr evs h = Inr h' \<and> 0 < n \<and>
           disk h' = flush_disk env OUT_PATH stringify tr h \<and>
           stderr h' = stderr h @ replicate n (flush_line env OUT_PATH stringify tr) \<and>
           sorted (map start_E (flush_array tr)) \<and>
           mset (flush_array tr) = mset (events_values (events tr))"
  using run_events_step[OF assms, of env OUT_PATH stringify tr h]
  by (simp add: flush_array_def js_sort_start)

theorem flush_sorted_repeatable_contained_witness:
  "\<exists>h'. run_events example_env ''trace.json'' example_stringify example_tracer [BeforeExit, SIGINT] example_host = Inr h' \<and>
      disk h' ''trace.json'' = Some ''/p/a.js:8:1;/p/a.js:9:1;/p/a.js:7:1;'' \<and> exitCode h' = Some 130"
proof -
  have ne: "[BeforeExit, SIGINT] \<noteq> []" by simp
  have arr: "flush_array example_tracer =
      [example_event 8 10 None, example_event 9 20 (Some 25), example_event 7 30 None]"
    by (simp add: flush_array_def example_tracer_def events_values_def example_event_def)
  have ex: "run_events example_env ''trace.json'' example_stringify example_tracer [BeforeExit, SIGINT] example_host =
     Inr \<lparr> disk = Map.empty(''trace.json'' \<mapsto> ''/p/a.js:8:1;/p/a.js:9:1;/p/a.js:7:1;''), stderr = replicate 3 (Wrote 3 ''trace.json''), exitCode = Some 130 \<rparr>"
    by (simp add: flush_def flush_try_def safeWriteFileSync_def process_exit_def arr example_env_def
         example_stringify_def example_host_def example_event_def numeral_3_eq_3)
  from flush_sorted_repeatable_contained[OF ne, of example_env "''trace.json''" example_stringify example_tracer example_host]
  show ?thesis using ex by simp
qed

section \<open>Properties of the correlator\<close>

lemma count_ranges_tallies [simp]:
  "userEvents_X (count_ranges rs rel line st) = userEvents_X st"
  "libEvents_X (count_ranges rs rel line st) = libEvents_X st"
  by (induction rs arbitrary: st) simp_all

lemma count_ranges_agree:
  assumes "execCounts_X st = execCounts_X st'" "byRuleExecuted_X st = byRuleExecuted_X st'"
  shows "execCounts_X (count_ranges rs rel line st) = execCounts_X (count_ranges rs rel line st') \<and>
         byRuleExecuted_X (count_ranges rs rel line st) = byRuleExecuted_X (count_ranges rs rel line st')"
  using assms
proof (induction rs arbitrary: st st')
  case Nil
  then show ?case by simp
next
  case (Cons r rs)
  define u where "u = (\<lambda>s::counters. if in_range r rel line
        then s\<lparr>execCounts_X := obj_incr (id_FR r) (execCounts_X s),
                byRuleExecuted_X := obj_incr (rule_FR r) (byRuleExecuted_X s)\<rparr>
        else s)"
  have e: "count_ranges (r # rs) rel line s = count_ranges rs rel line (u s)" for s
    by (simp add: u_def)
  have "execCounts_X (u st) = execCounts_X (u st')" "byRuleExecuted_X (u st) = byRuleExecuted_X (u st')"
    using Cons.prems by (simp_all add: u_def)
  from Cons.IH[OF this] show ?case unfolding e .
qed

lemma count_ranges_miss:
  "\<not> list_ex (\<lambda>r. in_range r rel line) rs \<Longrightarrow> count_ranges rs rel line st = st"
  by (induction rs arbitrary: st) simp_all

lemma count_events_agree:
  assumes "execCounts_X st = execCounts_X st'" "byRuleExecuted_X st = byRuleExecuted_X st'"
  shows "execCounts_X (count_events rel rt rs evs st) = execCounts_X (count_events rel rt rs evs st') \<and>
         byRuleExecuted_X (count_events rel rt rs evs st) = byRuleExecuted_X (count_events rel rt rs evs st')"
  using assms
proof (induction evs arbitrary: st st')
  case Nil
  then show ?case by simp
next
  case (Cons ev evs)
  show ?case
  proof (cases "event_loc ev")
    case None
    then have "count_events rel rt rs (ev # evs) st = count_events rel rt rs evs st"
      "count_events rel rt rs (ev # evs) st' = count_events rel rt rs evs st'"
      by simp_all
    then show ?thesis using Cons.IH[OF Cons.prems] by presburger
  next
    case (Some p)
    obtain a l where p: "p = (a, l)" by (cases p)
    define tally where "tally = (\<lambda>s::counters. if origin_T ev = Some ''user''
                     then s\<lparr>userEvents_X := userEvents_X s + 1\<rparr>
                     else s\<lparr>libEvents_X := libEvents_X s + 1\<rparr>)"
    define s1 where "s1 = tally (count_ranges rs (backslashes_to_slashes (rel rt a)) l st)"
    define s1' where "s1' = tally (count_ranges rs (backslashes_to_slashes (rel rt a)) l st')"
    have e: "count_events rel rt rs (ev # evs) st = count_events rel rt rs evs s1"
      "count_events rel rt rs (ev # evs) st' = count_events rel rt rs evs s1'"
      using Some p by (simp_all add: s1_def s1'_def tally_def Let_def)
    have "execCounts_X s1 = execCounts_X s1'" "byRuleExecuted_X s1 = byRuleExecuted_X s1'"
      using count_ranges_agree[OF Cons.prems, of rs "backslashes_to_slashes (rel rt a)" l]
      by (simp_all add: s1_def s1'_def tally_def)
    from Cons.IH[OF this] show ?thesis unfolding e .
  qed
qed

lemma count_events_hits:
  "execCounts_X (count_events rel rt (map fnRange_of (case report of None \<Rightarrow> [] | Some fs \<Rightarrow> fs)) evs st) =
   execCounts_X (count_events rel rt (map fnRange_of (case report of None \<Rightarrow> [] | Some fs \<Rightarrow> fs))
      (filter (hits rel rt report) evs) st) \<and>
   byRuleExecuted_X (count_events rel rt (map fnRange_of (case report of None \<Rightarrow> [] | Some fs \<Rightarrow> fs)) evs st) =
   byRuleExecuted_X (count_events rel rt (map fnRange_of (case report of None \<Rightarrow> [] | Some fs \<Rightarrow> fs))
      (filter (hits rel rt report) evs) st)"
  (is "?E evs st \<and> ?B evs st")
proof (induction evs arbitrary: st)
  case Nil
  then show ?case by simp
next
  case (Cons ev evs)
  let ?rs = "map fnRange_of (case report of None \<Rightarrow> [] | Some fs \<Rightarrow> fs)"
  show ?case
  proof (cases "hits rel rt report ev")
    case True
    then obtain a l where loc: "event_loc ev = Some (a, l)"
      by (auto simp: hits_def split: option.splits)
    define s1 where "s1 = (let st1 = count_ranges ?rs (backslashes_to_slashes (rel rt a)) l st in
        if origin_T ev = Some ''user''
                     then st1\<lparr>userEvents_X := userEvents_X st1 + 1\<rparr>
                     else st1\<lparr>libEvents_X := libEvents_X st1 + 1\<rparr>)"
    have e: "count_events rel rt ?rs (ev # evs) st = count_events rel rt ?rs evs s1"
      using loc by (simp add: s1_def Let_def)
    have f: "count_events rel rt ?rs (filter (hits rel rt report) (ev # evs)) st =
             count_events rel rt ?rs (filter (hits rel rt report) evs) s1"
      using loc True by (simp add: s1_def Let_def)
    from Cons.IH[of s1] show ?thesis unfolding e f .
  next
    case False
    have f: "filter (hits rel rt report) (ev # evs) = filter (hits rel rt report) evs"
      using False by simp
    show ?thesis
    proof (cases "event_loc ev")
      case None
      then have "count_events rel rt ?rs (ev # evs) st = count_events rel rt ?rs evs st" by simp
      with Cons.IH[of st] f show ?thesis by simp
    next
      case (Some p)
      obtain a l where p: "p = (a, l)" by (cases p)
      have miss: "count_ranges ?rs (backslashes_to_slashes (rel rt a)) l st = st"
        using False Some p by (intro count_ranges_miss) (simp add: hits_def)
      define s1 where "s1 = (if origin_T ev = Some ''user''
                     then st\<lparr>userEvents_X := userEvents_X st + 1\<rparr>
                     else st\<lparr>libEvents_X := libEvents_X st + 1\<rparr>)"
      have e: "count_events rel rt ?rs (ev # evs) st = count_events rel rt ?rs evs s1"
        using Some p miss by (simp add: s1_def Let_def)
      have "execCounts_X s1 = execCounts_X st" "byRuleExecuted_X s1 = byRuleExecuted_X st"
        by (simp_all add: s1_def)
      from count_events_agree[OF this, of rel rt ?rs evs] Cons.IH[of st] show ?thesis
        unfolding e f by simp
    qed
  qed
qed

lemma count_events_tallies:
  "userEvents_X (count_events rel rt rs evs st) = userEvents_X st + length (filter resolved_user evs) \<and>
   libEvents_X (count_events rel rt rs evs st) = libEvents_X st + length (filter resolved_other evs)"
proof (induction evs arbitrary: st)
  case Nil
  then show ?case by simp
next
  case (Cons ev evs)
  show ?case
  proof (cases "event_loc ev")
    case None
    then have "count_events rel rt rs (ev # evs) st = count_events rel rt rs evs st" by simp
    with Cons.IH[of st] None show ?thesis by (simp add: resolved_user_def resolved_other_def)
  next
    case (Some p)
    obtain a l where p: "p = (a, l)" by (cases p)
    define s1 where "s1 = (let st1 = count_ranges rs (backslashes_to_slashes (rel rt a)) l st in
        if origin_T ev = Some ''user''
                     then st1\<lparr>userEvents_X := userEvents_X st1 + 1\<rparr>
                     else st1\<lparr>libEvents_X := libEvents_X st1 + 1\<rparr>)"
    have e: "count_events rel rt rs (ev # evs) st = count_events rel rt rs evs s1"
      using Some p by (simp add: s1_def Let_def)
    have "userEvents_X s1 = userEvents_X st + (if origin_T ev = Some ''user'' then 1 else 0)"
      "libEvents_X s1 = libEvents_X st + (if origin_T ev = Some ''user'' then 0 else 1)"
      by (simp_all add: s1_def Let_def)
    with Cons.IH[of s1] Some show ?thesis
      unfolding e by (simp add: resolved_user_def resolved_other_def)
  qed
qed

text \<open>
  Claim C4, as the code has it. An event that hits no finding (its location is absent,
  does not parse, or lies in no function range) adds nothing to \<open>execCounts\<close> and
  \<open>byRuleExecuted\<close>: both are what the hitting events alone give. Every event counts in
  \<open>totalTraceEvents\<close>. The origin tallies count the events whose location parses, in
  range or not: \<open>userEvents\<close> those of origin \<open>user\<close>, \<open>libEvents\<close> all others; an event
  whose location is absent or does not parse is in neither tally.
\<close>

theorem crossReference_skipped_events:
  "execCounts_O (crossReference relative root_dir report trace_events) =
     execCounts_O (crossReference relative root_dir report
                     (filter (hits relative root_dir report) trace_events)) \<and>
   byRuleExecuted_S (summary_O (crossReference relative root_dir report trace_events)) =
     byRuleExecuted_S (summary_O (crossReference relative root_dir report
                     (filter (hits relative root_dir report) trace_events))) \<and>
   totalTraceEvents_S (summary_O (crossReference relative root_dir report trace_events)) =
     length trace_events \<and>
   userEvents_S (summary_O (crossReference relative root_dir report trace_events)) =
     length (filter resolved_user trace_events) \<and>
   libEvents_S (summary_O (crossReference relative root_dir report trace_events)) =
     length (filter resolved_other trace_events)"
  using count_events_hits[of relative root_dir report trace_events
          "\<lparr> execCounts_X = [], byRuleExecuted_X = [], userEvents_X = 0, libEvents_X = 0 \<rparr>"]
        count_events_tallies[of relative root_dir "map fnRange_of (case report of None \<Rightarrow> [] | Some fs \<Rightarrow> fs)"
          trace_events "\<lparr> execCounts_X = [], byRuleExecuted_X = [], userEvents_X = 0, libEvents_X = 0 \<rparr>"]
  by (simp add: crossReference_def Let_def)

text \<open>
  The claim as the specification states it fails for an event without a location: it
  counts in the total and in neither origin tally, though its origin is \<open>user\<close>.
\<close>

theorem crossReference_unresolved_counterexample:
  "userEvents_S (summary_O (crossReference example_relative ''/proj'' (Some example_findings)
      [example_trace_event None ''user''])) = 0 \<and>
   libEvents_S (summary_O (crossReference example_relative ''/proj'' (Some example_findings)
      [example_trace_event None ''user''])) = 0 \<and>
   totalTraceEvents_S (summary_O (crossReference example_relative ''/proj'' (Some example_findings)
      [example_trace_event None ''user''])) = 1"
  by (simp add: crossReference_def event_loc_def example_trace_event_def Let_def)

text \<open>
  How the expression reads a location with a column. For a path without line
  terminators followed by \<open>:line:col\<close>, the first group is \<open>path:line\<close> and the number
  taken as the line is the column.
\<close>

lemma greedy_prefix_longest:
  assumes "k \<le> n" and "match_line_col (drop k s) = Some ds"
    and "\<forall>j. k < j \<and> j \<le> n \<longrightarrow> match_line_col (drop j s) = None"
  shows "greedy_prefix s n = Some (take k s, ds)"
  using assms
proof (induction n)
  case 0
  then show ?case by simp
next
  case (Suc n)
  show ?case
  proof (cases "k = Suc n")
    case True
    with Suc.prems(2) show ?thesis by simp
  next
    case False
    with Suc.prems have "k \<le> n" "match_line_col (drop (Suc n) s) = None" by auto
    with Suc.IH Suc.prems show ?thesis by simp
  qed
qed

lemma digit_not_colon: "isDigit c \<Longrightarrow> c \<noteq> CHR '':''"
  by (auto simp: isDigit_def)

lemma digit_not_terminator: "isDigit c \<Longrightarrow> \<not> isLineTerminator c"
  by (auto simp: isDigit_def isLineTerminator_def)

lemma match_line_col_digits:
  "list_all isDigit ds \<Longrightarrow> match_line_col ds = None"
  by (cases ds) (auto simp: match_line_col_def digit_not_colon)

lemma match_line_col_colon:
  "list_all isDigit ds \<Longrightarrow> ds \<noteq> [] \<Longrightarrow> match_line_col (CHR '':'' # ds) = Some ds"
proof -
  assume a: "list_all isDigit ds" "ds \<noteq> []"
  then have t: "takeWhile isDigit ds = ds" "dropWhile isDigit ds = []"
    by (simp_all add: list_all_iff)
  show ?thesis by (simp add: match_line_col_def Let_def t a(2))
qed

lemma parseLocation_with_column:
  assumes "list_all (\<lambda>c. \<not> isLineTerminator c) path"
    and "list_all isDigit line" and "line \<noteq> []"
    and "list_all isDigit col" and "col \<noteq> []"
  shows "parseLocation (path @ '':'' @ line @ '':'' @ col) =
           Some (path @ '':'' @ line, int (Number_digits col))"
proof -
  let ?s = "path @ '':'' @ line @ '':'' @ col"
  let ?k = "length (path @ '':'' @ line)"
  have nt: "list_all (\<lambda>c. \<not> isLineTerminator c) ?s"
  proof -
    have "\<not> isLineTerminator CHR '':''" by (simp add: isLineTerminator_def)
    moreover have "list_all (\<lambda>c. \<not> isLineTerminator c) ds" if "list_all isDigit ds" for ds
      using that by (induction ds) (simp_all add: digit_not_terminator)
    ultimately show ?thesis using assms(1,2,4) by simp
  qed
  then have tw: "takeWhile (\<lambda>c. \<not> isLineTerminator c) ?s = ?s"
    by (simp add: list_all_iff)
  have d: "drop ?k ?s = CHR '':'' # col" by simp
  have m: "match_line_col (drop ?k ?s) = Some col"
    unfolding d using assms(4,5) by (rule match_line_col_colon)
  have later: "match_line_col (drop j ?s) = None" if "?k < j" for j
  proof -
    have "?s = (path @ '':'' @ line) @ CHR '':'' # col" by simp
    then have "drop j ?s = drop (j - ?k) (CHR '':'' # col)"
      using that by (metis drop_append drop_all less_imp_le_nat append_Nil)
    also have "\<dots> = drop (j - ?k - 1) col"
      using that by (cases "j - ?k") simp_all
    finally have "drop j ?s = drop (j - ?k - 1) col" .
    moreover have "list_all isDigit (drop (j - ?k - 1) col)"
      using assms(4) by (auto simp: list_all_iff dest: in_set_dropD)
    ultimately show ?thesis using match_line_col_digits by presburger
  qed
  have "greedy_prefix ?s (length ?s) = Some (take ?k ?s, col)"
  proof (rule greedy_prefix_longest[OF _ m])
    show "?k \<le> length ?s" by simp
    show "\<forall>j. ?k < j \<and> j \<le> length ?s \<longrightarrow> match_line_col (drop j ?s) = None"
      using later by blast
  qed
  moreover have "take ?k ?s = path @ '':'' @ line" by simp
  ultimately have "regex_match ?s = Some (path @ '':'' @ line, col)"
    unfolding regex_match_def tw by simp
  then show ?thesis by (simp add: parseLocation_def)
qed

lemma parseLocation_line_col:
  "parseLocation ''/proj/a.js:12:5'' = Some (''/proj/a.js:12'', 5)"
  by (simp add: parseLocation_def regex_match_def isLineTerminator_def match_line_col_def
      isDigit_def Number_digits_def digit_value_def)

lemma fnRange_example:
  "map fnRange_of example_findings =
    [\<lparr> id_FR = 1, file_FR = ''a.js'', start_FR = 10, end_FR = 14, rule_FR = ''await-in-loop'' \<rparr>,
     \<lparr> id_FR = 2, file_FR = ''b.js'', start_FR = 10, end_FR = 14, rule_FR = ''await-in-loop'' \<rparr>]"
  by (simp add: example_findings_def fnRange_of_def five_lines_def)

text \<open>
  Claim C3, at a location of the form \<open>path:line:col\<close>, the form that the tracer writes.
  The greedy first group takes \<open>path:line\<close> and the column is read as the line, so the
  event at line 12 of \<open>a.js\<close>, inside the finding's range of lines 10 to 14, counts for
  no finding.
\<close>

theorem crossReference_line_col_location:
  "parseLocation ''/proj/a.js:12:5'' = Some (''/proj/a.js:12'', 5) \<and>
   execCounts_O (crossReference example_relative ''/proj'' (Some example_findings)
      [example_trace_event (Some ''/proj/a.js:12:5'') ''user'']) = [] \<and>
   execCount (crossReference example_relative ''/proj'' (Some example_findings)
      [example_trace_event (Some ''/proj/a.js:12:5'') ''user'']) 1 = 0"
  by (simp add: crossReference_def event_loc_def example_trace_event_def Let_def
      parseLocation_line_col fnRange_example in_range_def example_relative_def
      backslashes_to_slashes_def execCount_def)

text \<open>Without a column the location is read as meant: the event at \<open>a.js:12\<close> counts
  once for the finding of \<open>a.js\<close> and for no other, the one at \<open>a.js:20\<close> for none.\<close>

lemma crossReference_line_location:
  "execCounts_O (crossReference example_relative ''/proj'' (Some example_findings)
      [example_trace_event (Some ''/proj/a.js:12'') ''user'']) = [(1, 1)] \<and>
   execCounts_O (crossReference example_relative ''/proj'' (Some example_findings)
      [example_trace_event (Some ''/proj/a.js:20'') ''user'']) = []"
  by (simp add: crossReference_def event_loc_def example_trace_event_def Let_def
      parseLocation_def regex_match_def isLineTerminator_def match_line_col_def
      isDigit_def Number_digits_def digit_value_def fnRange_example in_range_def example_relative_def
      backslashes_to_slashes_def obj_incr_def)

section \<open>Properties of the rules\<close>

declare visit.simps [simp del] awaits_in.simps [simp del]

lemma scan_ancestors_eq:
  "scan_ancestors ancestors n = (if list_ex ordinary_loop ancestors then [noAwaitInLoop n] else [])"
  by (induction ancestors) (auto simp: ordinary_loop_def noAwaitInLoop_def)

lemma awaitInLoopRule_eq:
  "awaitInLoopRule ancestors n =
     map noAwaitInLoop
       (case n of AwaitExpression argument \<Rightarrow> if list_ex ordinary_loop ancestors then [n] else []
        | _ \<Rightarrow> [])"
  by (cases n) (simp_all add: awaitInLoopRule_def scan_ancestors_eq)

lemma visit_awaitInLoopRule:
  "visit awaitInLoopRule ancestors n =
     map noAwaitInLoop (awaits_in (list_ex ordinary_loop ancestors) n)"
proof (induction "size n" arbitrary: n ancestors rule: less_induct)
  case less
  have IH: "visit awaitInLoopRule (ancestors @ [n]) c =
      map noAwaitInLoop (awaits_in (list_ex ordinary_loop ancestors \<or> ordinary_loop n) c)"
    if "c \<in> set (children n)" for c
    using less[OF children_size[OF that], of "ancestors @ [n]"] by simp
  have "concat (map (visit awaitInLoopRule (ancestors @ [n])) (children n)) =
        concat (map (\<lambda>c. map noAwaitInLoop
           (awaits_in (list_ex ordinary_loop ancestors \<or> ordinary_loop n) c)) (children n))"
    using IH by (intro arg_cong[where f=concat] map_cong) simp_all
  also have "\<dots> = map noAwaitInLoop (concat (map
        (awaits_in (list_ex ordinary_loop ancestors \<or> ordinary_loop n)) (children n)))"
    by (simp add: map_concat comp_def)
  finally show ?case
    by (subst visit.simps, subst awaits_in.simps) (simp add: awaitInLoopRule_eq)
qed

lemma awaits_in_within:
  "set (awaits_in inside n) \<subseteq> set (awaits_in True n) \<and>
   length (awaits_in inside n) \<le> length (awaits_in True n)"
proof (induction "size n" arbitrary: n inside rule: less_induct)
  case less
  let ?b = "inside \<or> ordinary_loop n"
  have IH: "set (awaits_in ?b c) \<subseteq> set (awaits_in True c) \<and>
            length (awaits_in ?b c) \<le> length (awaits_in True c)"
    if "c \<in> set (children n)" for c
    using less[OF children_size[OF that]] .
  have s: "set (concat (map (awaits_in ?b) (children n))) \<subseteq>
           set (concat (map (awaits_in True) (children n)))"
    using IH by auto
  have "sum_list (map (\<lambda>c. length (awaits_in ?b c)) (children n)) \<le>
        sum_list (map (\<lambda>c. length (awaits_in True c)) (children n))"
    using IH by (intro sum_list_mono) simp
  then have l: "length (concat (map (awaits_in ?b) (children n))) \<le>
           length (concat (map (awaits_in True) (children n)))"
    by (simp add: length_concat comp_def)
  have e: "awaits_in inside n =
      (case n of AwaitExpression argument \<Rightarrow> if inside then [n] else [] | _ \<Rightarrow> [])
      @ concat (map (awaits_in ?b) (children n))"
    by (subst awaits_in.simps) simp
  have t: "awaits_in True n =
      (case n of AwaitExpression argument \<Rightarrow> [n] | _ \<Rightarrow> [])
      @ concat (map (awaits_in True) (children n))"
    by (subst awaits_in.simps) simp
  show ?case
    unfolding e t using s l by (cases n) auto
qed

lemma awaits_in_single:
  assumes "awaits_in True n = [a]"
  shows "awaits_in False n = (if a \<in> set (awaits_in False n) then [a] else [])"
proof -
  from awaits_in_within[of False n] assms
  have s: "set (awaits_in False n) \<subseteq> {a}" and l: "length (awaits_in False n) \<le> 1"
    by simp_all
  show ?thesis
  proof (cases "awaits_in False n")
    case Nil
    then show ?thesis by simp
  next
    case (Cons x xs)
    with l have "xs = []" by simp
    moreover from s Cons have "x = a" by simp
    ultimately show ?thesis using Cons by simp
  qed
qed

text \<open>
  Claim C6, as the code has it. For a loop whose body holds exactly one \<open>await\<close>
  expression: when the loop is not a \<open>for await\<close>, the traversal of the body reports
  exactly one finding, at that expression. When the loop is a \<open>for await\<close>, it reports
  none exactly when no ordinary loop is among the ancestors of the expression, neither
  around the \<open>for await\<close> nor inside the body; with such a loop it reports the one
  finding at the expression.
\<close>

theorem awaitInLoop_loop_body:
  assumes "loop_body L = Some body" and "awaits_in True body = [a]"
  shows "(\<not> for_await_of L \<longrightarrow>
            visit awaitInLoopRule (outer @ [L]) body = [noAwaitInLoop a]) \<and>
         (for_await_of L \<longrightarrow>
            visit awaitInLoopRule (outer @ [L]) body =
              (if list_ex ordinary_loop outer \<or> a \<in> set (awaits_in False body)
               then [noAwaitInLoop a] else []))"
proof -
  have l: "loops L" using assms(1) by (auto simp: loop_body_def loops_def split: node.splits)
  have v: "visit awaitInLoopRule (outer @ [L]) body =
      map noAwaitInLoop (awaits_in (list_ex ordinary_loop outer \<or> ordinary_loop L) body)"
    by (simp add: visit_awaitInLoopRule)
  have 1: "visit awaitInLoopRule (outer @ [L]) body = [noAwaitInLoop a]" if "\<not> for_await_of L"
    using that l assms(2) by (simp add: v ordinary_loop_def)
  have 2: "visit awaitInLoopRule (outer @ [L]) body =
       (if list_ex ordinary_loop outer \<or> a \<in> set (awaits_in False body)
        then [noAwaitInLoop a] else [])" if f: "for_await_of L"
  proof (cases "list_ex ordinary_loop outer")
    case True
    then show ?thesis using assms(2) by (simp add: v)
  next
    case False
    have "visit awaitInLoopRule (outer @ [L]) body = map noAwaitInLoop (awaits_in False body)"
      using False f by (simp add: v ordinary_loop_def)
    also have "\<dots> = (if a \<in> set (awaits_in False body) then [noAwaitInLoop a] else [])"
      by (subst awaits_in_single[OF assms(2)]) simp
    finally show ?thesis using False by simp
  qed
  from 1 2 show ?thesis by blast
qed

text \<open>
  The claim as the specification states it fails for the body \<open>{ while (await f()) {} }\<close>.
  It holds exactly one \<open>await\<close> expression, which lies in the test of the \<open>while\<close> and in
  the body of no other loop. Under \<open>for await (const x of xs)\<close> the rule still reports
  it, since the \<open>while\<close> is among its ancestors.
\<close>

theorem awaitInLoop_for_await_counterexample:
  "loop_body (example_for_of True example_while_test_body) = Some example_while_test_body \<and>
   awaits_in True example_while_test_body = [example_await] \<and>
   visit awaitInLoopRule [] (example_program (example_for_of True example_while_test_body)) =
     [noAwaitInLoop example_await]"
  by (simp add: visit.simps awaits_in.simps example_while_test_body_def example_await_def
      example_for_of_def example_program_def loop_body_def awaitInLoopRule_def loops_def
      for_await_of_def ordinary_loop_def noAwaitInLoop_def)

theorem awaitInLoop_loop_body_witness:
  "visit awaitInLoopRule [example_program (example_for_of False example_plain_body)]
      (example_for_of False example_plain_body) = [noAwaitInLoop example_await] \<and>
   visit awaitInLoopRule [example_program (example_for_of True example_plain_body)]
      (example_for_of True example_plain_body) = [] \<and>
   visit awaitInLoopRule [example_program (example_for_of True example_sibling_body)]
      (example_for_of True example_sibling_body) = [] \<and>
   visit awaitInLoopRule [example_program (example_for_of True example_while_body)]
      (example_for_of True example_while_body) = [noAwaitInLoop example_await]"
proof -
  have b: "loop_body (example_for_of aw body) = Some body" for aw body
    by (simp add: loop_body_def example_for_of_def)
  have a: "awaits_in True example_plain_body = [example_await]"
    "awaits_in True example_sibling_body = [example_await]"
    "awaits_in True example_while_body = [example_await]"
    by (simp_all add: awaits_in.simps example_plain_body_def example_sibling_body_def
        example_while_body_def example_await_def)
  have i: "awaits_in False example_plain_body = []"
    "awaits_in False example_sibling_body = []"
    "awaits_in False example_while_body = [example_await]"
    by (simp_all add: awaits_in.simps example_plain_body_def example_sibling_body_def
        example_while_body_def example_await_def ordinary_loop_def loops_def for_await_of_def)
  have f: "\<not> for_await_of (example_for_of False body)" "for_await_of (example_for_of True body)"
    for body
    by (simp_all add: for_await_of_def example_for_of_def)
  have o: "\<not> ordinary_loop (example_program stmt)" for stmt
    by (simp add: ordinary_loop_def loops_def example_program_def)
  have v: "visit awaitInLoopRule anc (example_for_of aw body) =
           visit awaitInLoopRule (anc @ [example_for_of aw body]) body" for anc aw body
    by (subst visit.simps) (simp add: visit.simps example_for_of_def awaitInLoopRule_def)
  from awaitInLoop_loop_body[OF b a(1), of False "[example_program (example_for_of False example_plain_body)]"]
       awaitInLoop_loop_body[OF b a(1), of True "[example_program (example_for_of True example_plain_body)]"]
       awaitInLoop_loop_body[OF b a(2), of True "[example_program (example_for_of True example_sibling_body)]"]
       awaitInLoop_loop_body[OF b a(3), of True "[example_program (example_for_of True example_while_body)]"]
  show ?thesis by (simp add: v f o i)
qed

declare used_loop.simps [simp del] references.simps [simp del]












text \<open>
  An executor between the two cases of the theorem: in
  \<open>(resolve, reject) => { resolve({ reject: 1 }); }\<close> the name \<open>reject\<close> occurs as the key
  of an object literal only. Its parent is a \<open>Property\<close>, no member expression, so the
  walk answers \<open>used\<close> and the executor is not reported.
\<close>

lemma executorOneArgUsed_object_key:
  "executorOneArgUsedRule (new_Promise example_object_key) = []"
  by (simp add: executorOneArgUsedRule_def new_Promise_def example_object_key_def
      example_executor_def check_executor_def param_name_def uses_param_def isIdentifierUsed_def
      func_body_def used_loop.simps shadowed_def stack_children_def property_of_def)

text \<open>
  Claim C7. A \<open>return\<close> whose argument is an \<open>await\<close> expression, with an \<open>async\<close>
  function as the innermost function around it, is reported at the \<open>await\<close> expression.
  With a \<open>try\<close> statement among its ancestors the fix function returns nothing; with
  none, the fix removes the first token of the argument, the \<open>await\<close> token.
\<close>

theorem asyncAwaitedReturn_report_and_fix:
  assumes "find is_function (rev ancestors) = Some func" and "func_async func"
    and "getFirstToken (AwaitExpression inner) = Some awaitToken"
  shows "asyncAwaitedReturnRule getFirstToken ancestors (ReturnStatement (Some (AwaitExpression inner))) =
           [\<lparr> node_R = AwaitExpression inner, messageId_R = ''noReturnAwait'',
              fix_R = (if list_ex is_TryStatement ancestors then None
                       else Some (Remove awaitToken)) \<rparr>]"
  using assms by (simp add: asyncAwaitedReturnRule_def noReturnAwait_fix_def)

theorem asyncAwaitedReturn_report_and_fix_witness:
  "asyncAwaitedReturnRule example_getFirstToken
     [example_async_function (BlockStatement [example_return]), BlockStatement [example_return]]
     example_return =
     [\<lparr> node_R = AwaitExpression (CallExpression (Identifier ''load'') []),
        messageId_R = ''noReturnAwait'', fix_R = Some (Remove example_await_token) \<rparr>] \<and>
   asyncAwaitedReturnRule example_getFirstToken
     [example_async_function (BlockStatement [TryStatement (BlockStatement [example_return]) None None]),
      BlockStatement [TryStatement (BlockStatement [example_return]) None None],
      TryStatement (BlockStatement [example_return]) None None,
      BlockStatement [example_return]]
     example_return =
     [\<lparr> node_R = AwaitExpression (CallExpression (Identifier ''load'') []),
        messageId_R = ''noReturnAwait'', fix_R = None \<rparr>]"
proof -
  let ?f1 = "example_async_function (BlockStatement [example_return])"
  let ?f2 = "example_async_function (BlockStatement [TryStatement (BlockStatement [example_return]) None None])"
  have a1: "find is_function (rev [?f1, BlockStatement [example_return]]) = Some ?f1"
    by (simp add: is_function_def example_async_function_def)
  have a2: "find is_function (rev [?f2, BlockStatement [TryStatement (BlockStatement [example_return]) None None],
      TryStatement (BlockStatement [example_return]) None None,
      BlockStatement [example_return]]) = Some ?f2"
    by (simp add: is_function_def example_async_function_def)
  have b: "func_async (example_async_function body)" for body
    by (simp add: func_async_def example_async_function_def)
  have c: "example_getFirstToken (AwaitExpression (CallExpression (Identifier ''load'') [])) =
      Some example_await_token"
    by (simp add: example_getFirstToken_def)
  from asyncAwaitedReturn_report_and_fix[where getFirstToken = example_getFirstToken, OF a1 b c]
       asyncAwaitedReturn_report_and_fix[where getFirstToken = example_getFirstToken, OF a2 b c]
  show ?thesis
    by (simp add: example_return_def is_TryStatement_def example_async_function_def)
qed

text \<open>
  Claim C9. For \<open>new Promise(executor)\<close> whose executor has the two parameters and a
  block body with the one statement \<open>inner.then(resolve, reject)\<close> that passes both
  parameters on, the rule reports the \<open>new\<close> expression, and its fix replaces the whole
  expression with the source text of \<open>inner\<close>, the object of the \<open>then\<close> call.
\<close>

theorem redundantWrapper_fix_text:
  assumes "executor = ArrowFunctionExpression params body async \<or>
           executor = FunctionExpression ident params body async"
    and "params = [Identifier resolveName, Identifier rejectName]"
    and "body = BlockStatement
           [ExpressionStatement
             (CallExpression (MemberExpression inner (Identifier ''then'') False)
               [Identifier resolveName, Identifier rejectName])]"
    and "getText inner \<noteq> []"
  shows "redundantNewPromiseWrapperRule getText (NewExpression (Identifier ''Promise'') [executor]) =
           [\<lparr> node_R = NewExpression (Identifier ''Promise'') [executor],
              messageId_R = ''redundantWrapper'',
              fix_R = Some (ReplaceText (NewExpression (Identifier ''Promise'') [executor])
                        (getText inner)) \<rparr>]"
proof -
  have t: "then_forwarding getText params body = (True, Some (getText inner))"
    using assms(2,3)
    by (simp add: then_forwarding_def firstExprStmt_def is_ExpressionStatement_def
        forwards_param_def isIdent_def)
  have "check_wrapper getText n params body =
      [\<lparr> node_R = n, messageId_R = ''redundantWrapper'',
         fix_R = Some (ReplaceText n (getText inner)) \<rparr>]" for n
    using assms(4) by (simp add: check_wrapper_def t)
  then show ?thesis
    using assms(1) by (auto simp: redundantNewPromiseWrapperRule_def)
qed

theorem redundantWrapper_fix_text_witness:
  "redundantNewPromiseWrapperRule example_getText (new_Promise example_forwarding) =
     [\<lparr> node_R = new_Promise example_forwarding, messageId_R = ''redundantWrapper'',
        fix_R = Some (ReplaceText (new_Promise example_forwarding) ''inner'') \<rparr>]"
proof -
  have a: "example_forwarding =
      ArrowFunctionExpression [Identifier ''resolve'', Identifier ''reject'']
        (BlockStatement [ExpressionStatement example_then_call]) False \<or>
     example_forwarding = FunctionExpression None [Identifier ''resolve'', Identifier ''reject'']
        (BlockStatement [ExpressionStatement example_then_call]) False"
    by (simp add: example_forwarding_def example_executor_def)
  have b: "[Identifier ''resolve'', Identifier ''reject''] = [Identifier ''resolve'', Identifier ''reject'']"
    by simp
  have c: "BlockStatement [ExpressionStatement example_then_call] =
     BlockStatement
           [ExpressionStatement
             (CallExpression (MemberExpression (Identifier ''inner'') (Identifier ''then'') False)
               [Identifier ''resolve'', Identifier ''reject''])]"
    by (simp add: example_then_call_def)
  have d: "example_getText (Identifier ''inner'') \<noteq> []"
    by (simp add: example_getText_def)
  from redundantWrapper_fix_text[where getText = example_getText, OF a b c d] show ?thesis
    by (simp add: new_Promise_def example_getText_def)
qed

end
